theory Spec2Isabelle
  imports Complex_Main "HOL-Library.Word"
begin

section \<open>The rate limiter of MoonGen (src/rate_limiter.cpp)\<close>

text \<open>
  The file holds two worker loops that move packet buffers from a ring to a transmit
  queue of a network device: \<open>main_loop\<close> forwards as fast as the device accepts, and
  \<open>main_loop_cbr\<close> releases one packet per inter-departure interval, timed by the
  cycle counter. Both loops run forever, so each is embedded as a deterministic
  transition function on the local variables of the C++ function, one transition per
  loop test or external call, and an execution is the iteration of that function.
\<close>

subsection \<open>Data\<close>

text \<open>A packet handle is a \<open>struct rte_mbuf*\<close>: an opaque 64-bit pointer value.\<close>

type_synonym mbuf_ptr = "64 word"

text \<open>\<open>constexpr int batch_size = 64\<close>; the array \<open>bufs\<close> has that many entries.\<close>

definition batch_size :: nat where
  "batch_size = 64"

text \<open>
  The collaborators outside the file, as the sequence of their answers. The k-th call of
  \<open>ring_dequeue\<close> gives its return code and the contents of \<open>bufs\<close> after the call; the
  k-th call of \<open>rte_eth_tx_burst\<close>, offered \<open>nb_pkts\<close> packets, gives the number it
  accepted; the k-th read of the cycle counter gives its value.
\<close>

record env =
  ring_dequeue :: "nat \<Rightarrow> int \<times> mbuf_ptr list"
  rte_eth_tx_burst :: "nat \<Rightarrow> 16 word \<Rightarrow> 16 word"
  rte_get_tsc_cycles :: "nat \<Rightarrow> 64 word"

text \<open>
  One call of \<open>rte_eth_tx_burst (device, queue, bufs + sent, nb_pkts)\<close> as it is
  observed: the offset \<open>sent\<close>, the count offered, the handles
  \<open>bufs[sent .. sent + nb_pkts)\<close> and the count returned. \<open>tx_batch\<close> is bookkeeping
  of the observer: the index of the \<open>ring_dequeue\<close> call that filled \<open>bufs\<close>.
\<close>

record tx_call =
  tx_batch :: nat
  tx_off :: "32 word"
  tx_nb :: "16 word"
  tx_pkts :: "mbuf_ptr list"
  tx_ret :: "16 word"

text \<open>The handles the device took over in one call: the first \<open>tx_ret\<close> of those offered.\<close>

definition tx_accepted :: "'a tx_call_scheme \<Rightarrow> mbuf_ptr list" where
  "tx_accepted c = take (unat (tx_ret c)) (tx_pkts c)"

text \<open>Everything the device has taken over, in the order it took it.\<close>

definition sunk :: "'a tx_call_scheme list \<Rightarrow> mbuf_ptr list" where
  "sunk cs = concat (map tx_accepted cs)"

text \<open>The batches that the first \<open>n\<close> calls of \<open>ring_dequeue\<close> delivered (return code 0).\<close>

definition dequeued :: "env \<Rightarrow> nat \<Rightarrow> mbuf_ptr list" where
  "dequeued e n =
     concat (map (\<lambda>k. snd (ring_dequeue e k))
                 (filter (\<lambda>k. fst (ring_dequeue e k) = 0) [0..<n]))"

subsection \<open>\<open>main_loop\<close>: best-effort forwarding\<close>

text \<open>
  \<^verbatim>\<open>
  while (1) {
      int rc = ring_dequeue(ring, bufs, batch_size);                        // Poll
      if (rc == 0) {
          uint32_t sent = 0;
          while (sent < batch_size) {                                       // Inner
              sent += rte_eth_tx_burst(device, queue, bufs + sent, batch_size - sent);
          }
      }
  }
  \<close>
  \<open>sent < batch_size\<close> and \<open>batch_size - sent\<close> are evaluated in \<open>uint32_t\<close>; the
  count is then narrowed to the \<open>uint16_t\<close> parameter, and the \<open>uint16_t\<close> result is
  widened for the addition, which wraps at 32 bits.
\<close>

text \<open>
  The state holds the variables of the function and the place of the next transition;
  \<open>n_deq\<close>, \<open>n_tx\<close> count the calls made and \<open>calls\<close> is the list of transmit calls
  made so far, oldest first.
\<close>

datatype pc = Poll | Inner

record state =
  bufs :: "mbuf_ptr list"
  sent :: "32 word"
  pc :: pc
  n_deq :: nat
  n_tx :: nat
  calls :: "tx_call list"

definition main_loop_init :: "mbuf_ptr list \<Rightarrow> state" where
  "main_loop_init bufs0 =
     \<lparr>bufs = bufs0, sent = 0, pc = Poll, n_deq = 0, n_tx = 0, calls = []\<rparr>"

definition main_loop_step :: "env \<Rightarrow> state \<Rightarrow> state" where
  "main_loop_step e s =
     (case pc s of
        Poll \<Rightarrow>
          (let (rc, hs) = ring_dequeue e (n_deq s);
               s1 = s\<lparr>bufs := hs, n_deq := Suc (n_deq s)\<rparr>
           in if rc = 0 then s1\<lparr>sent := 0, pc := Inner\<rparr> else s1)
      | Inner \<Rightarrow>
          if sent s < of_nat batch_size then
            (let nb = (ucast (of_nat batch_size - sent s) :: 16 word);
                 pkts = take (unat nb) (drop (unat (sent s)) (bufs s));
                 r = rte_eth_tx_burst e (n_tx s) nb
             in s\<lparr>sent := sent s + ucast r,
                  n_tx := Suc (n_tx s),
                  calls := calls s @
                    [\<lparr>tx_batch = n_deq s - 1, tx_off = sent s, tx_nb = nb,
                      tx_pkts = pkts, tx_ret = r\<rparr>]\<rparr>)
          else s\<lparr>pc := Poll\<rparr>)"

text \<open>
  The state of \<open>main_loop\<close> after \<open>n\<close> transitions; \<open>bufs0\<close> is what the array holds
  before it is first written.
\<close>

definition main_loop :: "env \<Rightarrow> mbuf_ptr list \<Rightarrow> nat \<Rightarrow> state" where
  "main_loop e bufs0 n = (main_loop_step e ^^ n) (main_loop_init bufs0)"

text \<open>The device never reports more packets than it was offered.\<close>

definition sink_ok :: "env \<Rightarrow> bool" where
  "sink_ok e = (\<forall>k n. rte_eth_tx_burst e k n \<le> n)"

text \<open>
  The array \<open>bufs\<close> has \<open>batch_size\<close> entries and a successful \<open>ring_dequeue\<close> (return
  code 0) has written all of them: what it leaves in the array is a list of that
  length, the batch.
\<close>

definition ring_ok :: "env \<Rightarrow> bool" where
  "ring_ok e =
     (\<forall>k. fst (ring_dequeue e k) = 0 \<longrightarrow> length (snd (ring_dequeue e k)) = batch_size)"

subsection \<open>\<open>main_loop_cbr\<close>: one packet per interval\<close>

text \<open>
  \<^verbatim>\<open>
  uint64_t tsc_hz = rte_get_tsc_hz();
  uint64_t id_cycles = (uint64_t) (target / (1000000000.0 / ((double) tsc_hz)));
  uint64_t next_send = 0;
  while (1) {
      int rc = ring_dequeue(ring, bufs, batch_size);                        // CPoll
      uint64_t cur = rte_get_tsc_cycles();
      if (cur - next_send > tsc_hz / 100) {
          next_send = cur;
      }
      if (rc == 0) {
          uint32_t sent = 0;
          while (sent < batch_size) {                                       // CInner
              while ((cur = rte_get_tsc_cycles()) < next_send);             // CSpin
              next_send += id_cycles;                                       // CSend
              sent += rte_eth_tx_burst(device, queue, bufs + sent, 1);
          }
      }
  }
  \<close>
  All of \<open>cur\<close>, \<open>next_send\<close>, \<open>tsc_hz\<close> and \<open>id_cycles\<close> are \<open>uint64_t\<close>: the
  subtraction and the addition wrap at 64 bits and both comparisons are unsigned.
\<close>

datatype cbr_pc = CPoll | CInner | CSpin | CSend

text \<open>
  A call of the paced loop is observed with two more values: \<open>tx_sched\<close>, the value of
  \<open>next_send\<close> when the wait for the packet began, and \<open>tx_cycle\<close>, the last value of
  the cycle counter read before the call.
\<close>

record cbr_call = tx_call +
  tx_sched :: "64 word"
  tx_cycle :: "64 word"

text \<open>
  Besides the variables of the function the state counts the calls made, keeps
  \<open>wait_from\<close>, the value of \<open>next_send\<close> at the moment the busy-wait for the current
  packet was entered, and lists the transmit calls made so far.
\<close>

record cbr_state =
  tsc_hz :: "64 word"
  id_cycles :: "64 word"
  next_send :: "64 word"
  cur :: "64 word"
  cbr_bufs :: "mbuf_ptr list"
  cbr_sent :: "32 word"
  cbr_pc :: cbr_pc
  cbr_n_deq :: nat
  cbr_n_tx :: nat
  cbr_n_tsc :: nat
  wait_from :: "64 word"
  cbr_calls :: "cbr_call list"

text \<open>
  The state after the three initialisations. \<open>hz\<close> is what \<open>rte_get_tsc_hz\<close> returned
  and \<open>idc\<close> the interval computed from it (see \<open>id_cycles_of\<close> below).
\<close>

definition main_loop_cbr_init :: "64 word \<Rightarrow> 64 word \<Rightarrow> mbuf_ptr list \<Rightarrow> cbr_state" where
  "main_loop_cbr_init hz idc bufs0 =
     \<lparr>tsc_hz = hz, id_cycles = idc, next_send = 0, cur = 0, cbr_bufs = bufs0, cbr_sent = 0,
      cbr_pc = CPoll, cbr_n_deq = 0, cbr_n_tx = 0, cbr_n_tsc = 0, wait_from = 0,
      cbr_calls = []\<rparr>"

definition main_loop_cbr_step :: "env \<Rightarrow> cbr_state \<Rightarrow> cbr_state" where
  "main_loop_cbr_step e s =
     (case cbr_pc s of
        CPoll \<Rightarrow>
          (let (rc, hs) = ring_dequeue e (cbr_n_deq s);
               c = rte_get_tsc_cycles e (cbr_n_tsc s);
               s1 = s\<lparr>cbr_bufs := hs, cbr_n_deq := Suc (cbr_n_deq s),
                       cur := c, cbr_n_tsc := Suc (cbr_n_tsc s),
                       next_send := (if c - next_send s > tsc_hz s div 100 then c
                                     else next_send s)\<rparr>
           in if rc = 0 then s1\<lparr>cbr_sent := 0, cbr_pc := CInner\<rparr> else s1)
      | CInner \<Rightarrow>
          if cbr_sent s < of_nat batch_size
          then s\<lparr>cbr_pc := CSpin, wait_from := next_send s\<rparr>
          else s\<lparr>cbr_pc := CPoll\<rparr>
      | CSpin \<Rightarrow>
          (let c = rte_get_tsc_cycles e (cbr_n_tsc s);
               s1 = s\<lparr>cur := c, cbr_n_tsc := Suc (cbr_n_tsc s)\<rparr>
           in if c < next_send s then s1 else s1\<lparr>cbr_pc := CSend\<rparr>)
      | CSend \<Rightarrow>
          (let pkts = take 1 (drop (unat (cbr_sent s)) (cbr_bufs s));
               r = rte_eth_tx_burst e (cbr_n_tx s) 1
           in s\<lparr>next_send := next_send s + id_cycles s,
                cbr_sent := cbr_sent s + ucast r,
                cbr_n_tx := Suc (cbr_n_tx s),
                cbr_pc := CInner,
                cbr_calls := cbr_calls s @
                  [\<lparr>tx_batch = cbr_n_deq s - 1, tx_off = cbr_sent s, tx_nb = 1,
                    tx_pkts = pkts, tx_ret = r, tx_sched = wait_from s,
                    tx_cycle = cur s\<rparr>]\<rparr>))"

text \<open>The state of \<open>main_loop_cbr\<close> after \<open>n\<close> transitions.\<close>

definition main_loop_cbr ::
    "env \<Rightarrow> 64 word \<Rightarrow> 64 word \<Rightarrow> mbuf_ptr list \<Rightarrow> nat \<Rightarrow> cbr_state" where
  "main_loop_cbr e hz idc bufs0 n =
     (main_loop_cbr_step e ^^ n) (main_loop_cbr_init hz idc bufs0)"
subsection \<open>The interval in cycles\<close>

text \<open>
  \<^verbatim>\<open>uint64_t id_cycles = (uint64_t) (target / (1000000000.0 / ((double) tsc_hz)));\<close>

  \<open>target\<close> is a \<open>uint32_t\<close> and \<open>tsc_hz\<close> a \<open>uint64_t\<close>; the quotient
  \<open>1000000000.0 / tsc_hz\<close> is the length of a cycle in nanoseconds, so \<open>target\<close> is
  divided as a time in nanoseconds. Both divisions are \<open>double\<close> divisions. A \<open>double\<close>
  is modelled as an IEEE 754 binary64 value that is not negative (none of the operands
  can be): a rational number, \<open>+\<infinity>\<close> or NaN. Every operation rounds its exact result to
  the nearest representable value, ties to the even significand.
\<close>

datatype double = Finite rat | PInf | NaN

text \<open>\<open>floor_log2 n\<close> is the position of the leading bit of \<open>n \<ge> 1\<close>.\<close>

fun floor_log2 :: "nat \<Rightarrow> nat" where
  "floor_log2 n = (if n < 2 then 0 else Suc (floor_log2 (n div 2)))"

declare floor_log2.simps [simp del]

definition pow2 :: "int \<Rightarrow> rat" where
  "pow2 e = (if 0 \<le> e then 2 ^ nat e else 1 / 2 ^ nat (- e))"

text \<open>The binary exponent of \<open>x > 0\<close>: the \<open>e\<close> with \<open>2\<^sup>e \<le> x < 2\<^sup>e\<^sup>+\<^sup>1\<close>.\<close>

definition exponent :: "rat \<Rightarrow> int" where
  "exponent x =
     (if 1 \<le> x then int (floor_log2 (nat \<lfloor>x\<rfloor>))
      else - int (Suc (floor_log2 (nat (\<lceil>1 / x\<rceil> - 1)))))"

text \<open>Rounding to the nearest integer, ties to the even one.\<close>

definition round_even :: "rat \<Rightarrow> int" where
  "round_even x =
     (let f = \<lfloor>x\<rfloor>; d = x - of_int f
      in if d < 1 / 2 then f else if 1 / 2 < d then f + 1 else if even f then f else f + 1)"

text \<open>
  Rounding \<open>x \<ge> 0\<close> to binary64: 53 significant bits, the exponent not below \<open>-1022\<close>
  (below it the spacing of the subnormal numbers stays \<open>2\<^sup>-\<^sup>1\<^sup>0\<^sup>7\<^sup>4\<close>), and \<open>+\<infinity>\<close> from
  \<open>2\<^sup>1\<^sup>0\<^sup>2\<^sup>4\<close> on.
\<close>

definition round64 :: "rat \<Rightarrow> double" where
  "round64 x =
     (if x = 0 then Finite 0
      else let e = max (exponent x) (- 1022);
               u = pow2 (e - 52);
               y = of_int (round_even (x / u)) * u
           in if y < 2 ^ 1024 then Finite y else PInf)"

text \<open>\<open>(double) n\<close> for an unsigned integer \<open>n\<close>.\<close>

definition to_double :: "nat \<Rightarrow> double" where
  "to_double n = round64 (of_nat n)"

text \<open>\<open>a / b\<close> on doubles that are not negative.\<close>

fun fdiv :: "double \<Rightarrow> double \<Rightarrow> double" where
  "fdiv (Finite a) (Finite b) =
     (if b = 0 then (if a = 0 then NaN else PInf) else round64 (a / b))"
| "fdiv (Finite a) PInf = Finite 0"
| "fdiv PInf (Finite b) = PInf"
| "fdiv PInf PInf = NaN"
| "fdiv NaN b = NaN"
| "fdiv a NaN = NaN"

text \<open>
  \<open>(uint64_t) d\<close>: the fraction is dropped; the conversion is undefined (\<open>None\<close>) when
  the result does not fit, and for \<open>+\<infinity>\<close> and NaN.
\<close>

definition to_uint64 :: "double \<Rightarrow> 64 word option" where
  "to_uint64 d =
     (case d of
        Finite x \<Rightarrow> if \<lfloor>x\<rfloor> < 2 ^ 64 then Some (word_of_int \<lfloor>x\<rfloor>) else None
      | PInf \<Rightarrow> None
      | NaN \<Rightarrow> None)"

definition id_cycles_of :: "32 word \<Rightarrow> 64 word \<Rightarrow> 64 word option" where
  "id_cycles_of target hz =
     to_uint64 (fdiv (to_double (unat target))
                     (fdiv (Finite 1000000000) (to_double (unat hz))))"

text \<open>
  The interval as the specification words it: the counter frequency divided by the
  target rate in packets per second, the fraction dropped.
\<close>

definition spec_interval_cycles :: "nat \<Rightarrow> nat \<Rightarrow> nat" where
  "spec_interval_cycles counter_frequency_hz target_pps = counter_frequency_hz div target_pps"

text \<open>
  The start of \<open>main_loop_cbr (ring, device, queue, target)\<close>: the interval is computed
  once, from \<open>target\<close> and the frequency \<open>hz\<close> that \<open>rte_get_tsc_hz\<close> returned, and the
  loop begins in \<open>main_loop_cbr_init\<close> with it.
\<close>

definition main_loop_cbr_start ::
    "32 word \<Rightarrow> 64 word \<Rightarrow> mbuf_ptr list \<Rightarrow> cbr_state option" where
  "main_loop_cbr_start target hz bufs0 =
     map_option (\<lambda>idc. main_loop_cbr_init hz idc bufs0) (id_cycles_of target hz)"

subsection \<open>Invariants of the two loops\<close>

text \<open>What holds of every transmit call once the device and the ring keep their contracts.\<close>

definition call_ok :: "env \<Rightarrow> 'a tx_call_scheme \<Rightarrow> bool" where
  "call_ok e c \<longleftrightarrow>
     fst (ring_dequeue e (tx_batch c)) = 0 \<and>
     tx_pkts c =
       take (unat (tx_nb c)) (drop (unat (tx_off c)) (snd (ring_dequeue e (tx_batch c))))"

text \<open>
  Before the \<open>i\<close>-th transmit call the device had taken over all earlier batches and
  the first \<open>tx_off\<close> handles of the batch the call belongs to.
\<close>

definition prefix_ok :: "env \<Rightarrow> 'a tx_call_scheme list \<Rightarrow> bool" where
  "prefix_ok e cs \<longleftrightarrow>
     (\<forall>i < length cs.
        sunk (take i cs) =
          dequeued e (tx_batch (cs ! i)) @
          take (unat (tx_off (cs ! i))) (snd (ring_dequeue e (tx_batch (cs ! i)))))"

definition in_bounds :: "'a tx_call_scheme \<Rightarrow> bool" where
  "in_bounds c \<longleftrightarrow>
     unat (tx_off c) < batch_size \<and> 0 < unat (tx_nb c) \<and>
     unat (tx_off c) + unat (tx_nb c) \<le> batch_size \<and> tx_ret c \<le> tx_nb c"

definition main_loop_bounds :: "state \<Rightarrow> bool" where
  "main_loop_bounds s \<longleftrightarrow>
     unat (sent s) \<le> batch_size \<and>
     (\<forall>c \<in> set (calls s). in_bounds c \<and> unat (tx_nb c) = batch_size - unat (tx_off c))"

definition main_loop_inv :: "env \<Rightarrow> state \<Rightarrow> bool" where
  "main_loop_inv e s \<longleftrightarrow>
     (\<forall>c \<in> set (calls s). call_ok e c) \<and> prefix_ok e (calls s) \<and>
     (case pc s of
        Poll \<Rightarrow> sunk (calls s) = dequeued e (n_deq s)
      | Inner \<Rightarrow>
          0 < n_deq s \<and> fst (ring_dequeue e (n_deq s - 1)) = 0 \<and>
          bufs s = snd (ring_dequeue e (n_deq s - 1)) \<and>
          sunk (calls s) = dequeued e (n_deq s - 1) @ take (unat (sent s)) (bufs s))"

definition cbr_bounds :: "cbr_state \<Rightarrow> bool" where
  "cbr_bounds s \<longleftrightarrow>
     unat (cbr_sent s) \<le> batch_size \<and>
     (\<forall>c \<in> set (cbr_calls s). in_bounds c) \<and>
     (cbr_pc s = CSpin \<or> cbr_pc s = CSend \<longrightarrow> unat (cbr_sent s) < batch_size)"

definition cbr_timing_inv :: "64 word \<Rightarrow> 64 word \<Rightarrow> cbr_state \<Rightarrow> bool" where
  "cbr_timing_inv hz idc s \<longleftrightarrow>
     tsc_hz s = hz \<and> id_cycles s = idc \<and>
     (\<forall>c \<in> set (cbr_calls s).
        tx_nb c = 1 \<and> length (tx_pkts c) \<le> 1 \<and> tx_sched c \<le> tx_cycle c) \<and>
     (cbr_pc s = CSpin \<or> cbr_pc s = CSend \<longrightarrow> wait_from s = next_send s) \<and>
     (cbr_pc s = CSend \<longrightarrow> next_send s \<le> cur s)"

definition in_batch :: "env \<Rightarrow> cbr_state \<Rightarrow> bool" where
  "in_batch e s \<longleftrightarrow>
     0 < cbr_n_deq s \<and> fst (ring_dequeue e (cbr_n_deq s - 1)) = 0 \<and>
     cbr_bufs s = snd (ring_dequeue e (cbr_n_deq s - 1)) \<and>
     sunk (cbr_calls s) =
       dequeued e (cbr_n_deq s - 1) @ take (unat (cbr_sent s)) (cbr_bufs s)"

definition cbr_inv :: "env \<Rightarrow> cbr_state \<Rightarrow> bool" where
  "cbr_inv e s \<longleftrightarrow>
     (\<forall>c \<in> set (cbr_calls s). call_ok e c) \<and> prefix_ok e (cbr_calls s) \<and>
     (if cbr_pc s = CPoll then sunk (cbr_calls s) = dequeued e (cbr_n_deq s)
      else in_batch e s)"

text \<open>
  Two transmit calls that follow each other: within one batch the second was scheduled
  one interval after the first, and after a call that returned 0 the second offers the
  same handle of the same batch again.
\<close>

definition follows :: "64 word \<Rightarrow> cbr_call \<Rightarrow> cbr_call \<Rightarrow> bool" where
  "follows idc c d \<longleftrightarrow>
     (tx_batch d = tx_batch c \<longrightarrow> tx_sched d = tx_sched c + idc) \<and>
     (tx_ret c = 0 \<longrightarrow>
        tx_batch d = tx_batch c \<and> tx_off d = tx_off c \<and> tx_pkts d = tx_pkts c)"

definition tail_ok :: "64 word \<Rightarrow> cbr_state \<Rightarrow> cbr_call \<Rightarrow> bool" where
  "tail_ok idc s c \<longleftrightarrow>
     (tx_batch c = cbr_n_deq s - 1 \<longrightarrow>
        (cbr_pc s = CInner \<longrightarrow> next_send s = tx_sched c + idc) \<and>
        (cbr_pc s = CSpin \<or> cbr_pc s = CSend \<longrightarrow> wait_from s = tx_sched c + idc)) \<and>
     (tx_ret c = 0 \<longrightarrow>
        cbr_pc s \<noteq> CPoll \<and> tx_batch c = cbr_n_deq s - 1 \<and> tx_off c = cbr_sent s \<and>
        tx_pkts c = take 1 (drop (unat (cbr_sent s)) (cbr_bufs s)) \<and>
        cbr_sent s < of_nat batch_size)"

definition cbr_seq_inv :: "64 word \<Rightarrow> cbr_state \<Rightarrow> bool" where
  "cbr_seq_inv idc s \<longleftrightarrow>
     id_cycles s = idc \<and>
     (cbr_pc s \<noteq> CPoll \<longrightarrow> 0 < cbr_n_deq s) \<and>
     (\<forall>c \<in> set (cbr_calls s). tx_batch c < cbr_n_deq s) \<and>
     (\<forall>i. Suc i < length (cbr_calls s) \<longrightarrow>
          follows idc (cbr_calls s ! i) (cbr_calls s ! Suc i)) \<and>
     (cbr_calls s \<noteq> [] \<longrightarrow> tail_ok idc s (last (cbr_calls s))) \<and>
     (cbr_pc s = CSpin \<or> cbr_pc s = CSend \<longrightarrow>
        wait_from s = next_send s \<and> cbr_sent s < of_nat batch_size)"

subsection \<open>Concrete collaborators, for running the loops\<close>

text \<open>A batch of 64 distinct handles, 1 to 64.\<close>

definition batch0 :: "mbuf_ptr list" where
  "batch0 = map of_nat [1..<65]"

text \<open>A ring that never has a batch ready.\<close>

definition env_idle :: env where
  "env_idle =
     \<lparr>ring_dequeue = (\<lambda>k. (-2, [])),
      rte_eth_tx_burst = (\<lambda>k n. n),
      rte_get_tsc_cycles = (\<lambda>k. 1000 * of_nat k)\<rparr>"

text \<open>
  A ring that is empty at the first poll and full afterwards, and a device that rejects
  the first call and then takes at most 24 packets per call.
\<close>

definition env_burst :: env where
  "env_burst =
     \<lparr>ring_dequeue = (\<lambda>k. if k = 0 then (-2, []) else (0, batch0)),
      rte_eth_tx_burst = (\<lambda>k n. if k = 0 then 0 else min n 24),
      rte_get_tsc_cycles = (\<lambda>k. 1000 * of_nat k)\<rparr>"

text \<open>
  A full ring, a device that rejects the first call and accepts afterwards, and a
  counter that advances by 1000 cycles between two reads, starting at 1000.
\<close>

definition env_paced :: env where
  "env_paced =
     \<lparr>ring_dequeue = (\<lambda>k. (0, batch0)),
      rte_eth_tx_burst = (\<lambda>k n. if k = 0 then 0 else n),
      rte_get_tsc_cycles = (\<lambda>k. 1000 * of_nat k + 1000)\<rparr>"


text \<open>
  A full ring, a device that accepts everything, and a counter that advances by 1000
  cycles per read for the first 64 reads and by one cycle per read afterwards.
\<close>

definition env_ahead :: env where
  "env_ahead =
     \<lparr>ring_dequeue = (\<lambda>k. (0, batch0)),
      rte_eth_tx_burst = (\<lambda>k n. n),
      rte_get_tsc_cycles = (\<lambda>k. if k \<le> 64 then 1000 * of_nat k else 64000 + of_nat (k - 64))\<rparr>"

text \<open>
  A ring that has a batch at the first poll, is empty at the second and has a batch from
  the third poll on; a device that accepts everything; and a counter that advances by
  1000 cycles per read for the first 64 reads, reads 30000000 at the empty poll, 45000000 at
  the poll after it, and advances by one cycle per read from then on.
\<close>

definition env_gap :: env where
  "env_gap =
     \<lparr>ring_dequeue = (\<lambda>k. if k = 1 then (-2, batch0) else (0, batch0)),
      rte_eth_tx_burst = (\<lambda>k n. n),
      rte_get_tsc_cycles =
        (\<lambda>k. if k \<le> 64 then 1000 * of_nat k
             else if k = 65 then 30000000 else 45000000 + of_nat (k - 66))\<rparr>"

text \<open>
  What \<open>env_ahead\<close> and \<open>env_gap\<close> have in common: a batch at the first poll, a device
  that accepts every single packet, and a counter that reads \<open>1000 k\<close> at its \<open>k\<close>-th
  read up to the 64th.
\<close>

definition first_batch :: "env \<Rightarrow> bool" where
  "first_batch e \<longleftrightarrow>
     fst (ring_dequeue e 0) = 0 \<and>
     (\<forall>k \<le> 64. rte_get_tsc_cycles e k = 1000 * of_nat k) \<and>
     (\<forall>k. rte_eth_tx_burst e k 1 = 1)"

text \<open>
  With such collaborators and an interval of 1010 cycles, the state of \<open>main_loop_cbr\<close>
  at the test of the inner loop after \<open>j\<close> packets of the first batch.
\<close>

definition paced_shape :: "nat \<Rightarrow> cbr_state \<Rightarrow> bool" where
  "paced_shape j s \<longleftrightarrow>
     cbr_pc s = CInner \<and> cbr_sent s = of_nat j \<and> cbr_n_tsc s = Suc j \<and>
     cbr_n_deq s = 1 \<and> next_send s = 1010 * of_nat j \<and> id_cycles s = 1010 \<and>
     cur s = 1000 * of_nat j \<and> length (cbr_calls s) = j \<and>
     (0 < j \<longrightarrow> tx_cycle (last (cbr_calls s)) = 1000 * of_nat j)"

section \<open>Proofs\<close>

subsection \<open>Rounding to binary64\<close>

lemma floor_log2_bounds:
  "0 < n \<Longrightarrow> 2 ^ floor_log2 n \<le> n \<and> n < 2 ^ Suc (floor_log2 n)"
proof (induction n rule: floor_log2.induct)
  case (1 n)
  show ?case
  proof (cases "n < 2")
    case True
    with "1.prems" show ?thesis by (simp add: floor_log2.simps)
  next
    case False
    then have "0 < n div 2" by simp
    with "1.IH" False have "2 ^ floor_log2 (n div 2) \<le> n div 2"
      and "n div 2 < 2 ^ Suc (floor_log2 (n div 2))"
      by simp_all
    moreover have "floor_log2 n = Suc (floor_log2 (n div 2))"
      using False by (simp add: floor_log2.simps)
    ultimately show ?thesis by (simp del: power_Suc) (simp, linarith)
  qed
qed

lemma pow2_powi: "pow2 e = 2 powi e"
  by (simp add: pow2_def power_int_def power_one_over inverse_eq_divide)

lemma pow2_pos: "0 < pow2 e"
  by (simp add: pow2_def)

lemma pow2_add: "pow2 (a + b) = pow2 a * pow2 b"
  by (simp add: pow2_powi power_int_add)

lemma pow2_nat: "pow2 (int n) = 2 ^ n"
  by (simp add: pow2_def)

lemma pow2_neg: "pow2 (- int n) = 1 / 2 ^ n"
  by (simp add: pow2_powi power_int_minus inverse_eq_divide)

lemma pow2_mono: "a \<le> b \<Longrightarrow> pow2 a \<le> pow2 b"
  by (simp add: pow2_powi power_int_increasing)

lemma exponent_bounds:
  assumes "0 < x"
  shows "pow2 (exponent x) \<le> x \<and> x < pow2 (exponent x + 1)"
proof (cases "1 \<le> x")
  case True
  define n where "n = nat \<lfloor>x\<rfloor>"
  from True have fl: "1 \<le> \<lfloor>x\<rfloor>" by simp
  then have n: "0 < n" "int n = \<lfloor>x\<rfloor>" by (simp_all add: n_def)
  from floor_log2_bounds [OF n(1)]
  have lo: "2 ^ floor_log2 n \<le> n" and hi: "n < 2 ^ Suc (floor_log2 n)" by simp_all
  have e: "exponent x = int (floor_log2 n)"
    using True by (simp add: exponent_def n_def)
  have "(2 :: rat) ^ floor_log2 n \<le> of_nat n"
    using lo by (metis of_nat_le_iff of_nat_numeral of_nat_power)
  also have "(of_nat n :: rat) = of_int \<lfloor>x\<rfloor>" using n(2) by (metis of_int_of_nat_eq)
  also have "\<dots> \<le> x" by simp
  finally have 1: "pow2 (exponent x) \<le> x" by (simp add: e pow2_nat)
  from hi have "Suc n \<le> 2 ^ Suc (floor_log2 n)" by simp
  then have "(of_nat (Suc n) :: rat) \<le> 2 ^ Suc (floor_log2 n)"
    by (metis of_nat_le_iff of_nat_numeral of_nat_power)
  moreover have "x < of_int \<lfloor>x\<rfloor> + 1" by linarith
  moreover have "(of_nat (Suc n) :: rat) = of_int \<lfloor>x\<rfloor> + 1"
    using n(2) by (metis of_int_of_nat_eq of_nat_Suc add.commute)
  ultimately have "x < 2 ^ Suc (floor_log2 n)" by linarith
  moreover have "pow2 (exponent x + 1) = 2 ^ Suc (floor_log2 n)"
    using pow2_nat [of "Suc (floor_log2 n)"] by (simp add: e add.commute)
  ultimately show ?thesis using 1 by simp
next
  case False
  define y where "y = 1 / x"
  define m where "m = nat (\<lceil>y\<rceil> - 1)"
  from False assms have y1: "1 < y" by (simp add: y_def)
  then have c: "2 \<le> \<lceil>y\<rceil>" by linarith
  then have m: "0 < m" "int m = \<lceil>y\<rceil> - 1" by (simp_all add: m_def)
  define k where "k = floor_log2 m"
  from floor_log2_bounds [OF m(1)]
  have lo: "2 ^ k \<le> m" and hi: "m < 2 ^ Suc k" by (simp_all add: k_def)
  have e: "exponent x = - int (Suc k)"
    using False by (simp add: exponent_def m_def k_def y_def)
  have mr: "(of_nat m :: rat) = of_int \<lceil>y\<rceil> - 1"
    using m(2) by (metis of_int_of_nat_eq of_int_diff of_int_1)
  have "(2 :: rat) ^ k \<le> of_nat m"
    using lo by (metis of_nat_le_iff of_nat_numeral of_nat_power)
  also have "\<dots> < y" unfolding mr by linarith
  finally have "2 ^ k < 1 / x" by (simp add: y_def)
  with assms have up: "x < 1 / 2 ^ k"
    by (simp add: field_simps)
  from hi have "Suc m \<le> 2 ^ Suc k" by simp
  then have "(of_nat (Suc m) :: rat) \<le> 2 ^ Suc k"
    by (metis of_nat_le_iff of_nat_numeral of_nat_power)
  moreover have "(of_nat (Suc m) :: rat) = of_int \<lceil>y\<rceil>" using mr by simp
  moreover have "y \<le> of_int \<lceil>y\<rceil>" by simp
  ultimately have "y \<le> 2 ^ Suc k" by linarith
  then have "1 / x \<le> 2 ^ Suc k" by (simp add: y_def)
  with assms have "1 / 2 ^ Suc k \<le> x"
    by (simp add: field_simps)
  moreover have "pow2 (exponent x) = 1 / 2 ^ Suc k"
    unfolding e by (rule pow2_neg)
  moreover have "pow2 (exponent x + 1) = 1 / 2 ^ k"
    using pow2_neg [of k] by (simp add: e)
  ultimately show ?thesis using up by simp
qed

lemma round_even_error: "\<bar>of_int (round_even x) - x\<bar> \<le> 1 / 2"
proof -
  have "of_int \<lfloor>x\<rfloor> \<le> x" "x < of_int \<lfloor>x\<rfloor> + 1" by linarith+
  then show ?thesis
    by (auto simp: round_even_def Let_def)
qed

lemma round64_normal:
  assumes lo: "pow2 (- 1022) \<le> x" and hi: "x < 2 ^ 1023"
  shows "\<exists>y. round64 x = Finite y \<and> \<bar>y - x\<bar> \<le> x / 2 ^ 53"
proof -
  from lo pow2_pos [of "- 1022"] have pos: "0 < x" by linarith
  define e where "e = exponent x"
  define u where "u = pow2 (e - 52)"
  define y where "y = of_int (round_even (x / u)) * u"
  from exponent_bounds [OF pos] have eb: "pow2 e \<le> x" "x < pow2 (e + 1)"
    by (simp_all add: e_def)
  have "- 1022 \<le> e"
  proof (rule ccontr)
    assume "\<not> - 1022 \<le> e"
    then have "e + 1 \<le> - 1022" by simp
    from pow2_mono [OF this] eb(2) lo show False by linarith
  qed
  then have mx: "max (exponent x) (- 1022) = e" by (simp add: e_def)
  have upos: "0 < u" by (simp add: u_def pow2_pos)
  have "pow2 (e - 52) = pow2 e * pow2 (- int 52)"
    using pow2_add [of e "- 52"] by simp
  then have u: "u = pow2 e / 2 ^ 52"
    unfolding u_def pow2_neg by simp
  have "y - x = (of_int (round_even (x / u)) - x / u) * u"
    using upos by (simp add: y_def left_diff_distrib)
  then have "\<bar>y - x\<bar> = \<bar>of_int (round_even (x / u)) - x / u\<bar> * u"
    using upos by (simp add: abs_mult)
  also have "\<dots> \<le> (1 / 2) * u"
    using upos round_even_error [of "x / u"] by (simp add: mult_right_mono)
  also have "\<dots> = pow2 e / 2 ^ 53" by (simp add: u)
  also have "\<dots> \<le> x / 2 ^ 53" using eb(1) by (simp add: divide_right_mono)
  finally have err: "\<bar>y - x\<bar> \<le> x / 2 ^ 53" .
  have "x / 2 ^ 53 \<le> x" using pos by (simp add: field_simps)
  with err have "y \<le> 2 * x" by linarith
  with hi have "y < 2 ^ 1024" by simp
  with pos have "round64 x = Finite y"
    by (simp add: round64_def mx Let_def u_def [symmetric] y_def [symmetric])
  with err show ?thesis by blast
qed

lemma round_even_int: "round_even (of_int k) = k"
  by (simp add: round_even_def)

lemma to_double_exact:
  assumes "n < 2 ^ 53"
  shows "to_double n = Finite (of_nat n)"
proof (cases "n = 0")
  case True
  then show ?thesis by (simp add: to_double_def round64_def)
next
  case False
  define x :: rat where "x = of_nat n"
  from False have x1: "1 \<le> x" by (simp add: x_def)
  then have pos: "0 < x" by simp
  define e where "e = exponent x"
  from x1 have e0: "0 \<le> e" by (simp add: e_def exponent_def)
  from exponent_bounds [OF pos] have eb: "pow2 e \<le> x" by (simp add: e_def)
  have "of_nat n < (2 :: rat) ^ 53"
    using assms by (metis of_nat_less_iff of_nat_numeral of_nat_power)
  then have xh: "x < 2 ^ 53" by (simp add: x_def)
  have "e < 53"
  proof (rule ccontr)
    assume "\<not> e < 53"
    then have "53 \<le> e" by simp
    from pow2_mono [OF this] eb xh pow2_nat [of 53] show False by simp
  qed
  define j where "j = nat (52 - e)"
  from \<open>e < 53\<close> have j: "e - 52 = - int j" by (simp add: j_def)
  define u where "u = pow2 (e - 52)"
  have u: "u = 1 / 2 ^ j" unfolding u_def j by (rule pow2_neg)
  have "x / u = of_int (int n * 2 ^ j)"
    by (simp add: u x_def)
  then have "of_int (round_even (x / u)) * u = x"
    by (simp only: round_even_int) (simp add: u x_def)
  moreover have "x < 2 ^ 1024"
  proof -
    have "(2 :: rat) ^ 53 \<le> 2 ^ 1024" by (rule power_increasing) simp_all
    with xh show ?thesis by linarith
  qed
  moreover have "max (exponent x) (- 1022) = e" using e0 by (simp add: e_def)
  ultimately have "round64 x = Finite x"
    using pos by (simp add: round64_def Let_def u_def [symmetric])
  then show ?thesis by (simp add: to_double_def x_def)
qed

subsection \<open>The error of the interval computation\<close>

lemma rel_bounds:
  fixes x y :: rat
  assumes "\<bar>y - x\<bar> \<le> x / 2 ^ 53"
  shows "x * (1 - 1 / 2 ^ 53) \<le> y" and "y \<le> x * (1 + 1 / 2 ^ 53)"
proof -
  from assms have "y - x \<le> x / 2 ^ 53" and "- (x / 2 ^ 53) \<le> y - x"
    by linarith+
  then show "x * (1 - 1 / 2 ^ 53) \<le> y" and "y \<le> x * (1 + 1 / 2 ^ 53)"
    by (simp_all add: algebra_simps)
qed

lemma interval_quotient:
  fixes T H G d q r k1 k2 :: rat
  assumes pos: "0 < T" "0 < H" "0 < G" "0 < k1" "0 < k2" "0 < d" "0 < q" "0 \<le> r"
    and d: "H * k1 \<le> d" "d \<le> H * k2"
    and q: "G / d * k1 \<le> q" "q \<le> G / d * k2"
    and r: "T / q * k1 \<le> r" "r \<le> T / q * k2"
  shows "r * (G * k1) \<le> T * H * (k2 * k2)" and "T * H * (k1 * k1) \<le> r * (G * k2)"
proof -
  from q pos have qd: "G * k1 \<le> q * d" "q * d \<le> G * k2"
    by (simp_all add: field_simps)
  from r pos have rq: "T * k1 \<le> r * q" "r * q \<le> T * k2"
    by (simp_all add: field_simps)
  have "r * (G * k1) \<le> r * (q * d)"
    using qd(1) pos(8) by (rule mult_left_mono)
  also have "\<dots> = (r * q) * d" by simp
  also have "\<dots> \<le> (T * k2) * d"
    using rq(2) pos(6) by (simp add: mult_right_mono)
  also have "\<dots> \<le> (T * k2) * (H * k2)"
    using d(2) pos by (simp add: mult_left_mono)
  finally show "r * (G * k1) \<le> T * H * (k2 * k2)" by (simp add: ac_simps)
  have "T * H * (k1 * k1) = (T * k1) * (H * k1)" by simp
  also have "\<dots> \<le> (T * k1) * d"
    using d(1) pos by (simp add: mult_left_mono)
  also have "\<dots> \<le> (r * q) * d"
    using rq(1) pos(6) by (simp add: mult_right_mono)
  also have "\<dots> = r * (q * d)" by simp
  also have "\<dots> \<le> r * (G * k2)"
    using qd(2) pos(8) by (rule mult_left_mono)
  finally show "T * H * (k1 * k1) \<le> r * (G * k2)" .
qed

lemma cycle_length_bounds:
  assumes h: "0 < h" "h < 2 ^ 64"
  shows "\<exists>d q. to_double h = Finite d \<and> fdiv (Finite 1000000000) (to_double h) = Finite q \<and>
           0 < d \<and> 0 < q \<and>
           of_nat h * (1 - 1 / 2 ^ 53) \<le> d \<and> d \<le> of_nat h * (1 + 1 / 2 ^ 53) \<and>
           1000000000 / d * (1 - 1 / 2 ^ 53) \<le> q \<and> q \<le> 1000000000 / d * (1 + 1 / 2 ^ 53) \<and>
           1000000000 / 2 ^ 66 \<le> q \<and> q \<le> 4 * 1000000000"
proof -
  define H :: rat where "H = of_nat h"
  define G :: rat where "G = 1000000000"
  define k1 :: rat where "k1 = 1 - 1 / 2 ^ 53"
  define k2 :: rat where "k2 = 1 + 1 / 2 ^ 53"
  have k: "0 < k1" "0 < k2" "1 / 2 \<le> k1" "k2 \<le> 2"
    by (simp_all add: k1_def k2_def)
  have p1022: "pow2 (- 1022) = 1 / 2 ^ 1022"
    using pow2_neg [of 1022] by simp
  have H: "1 \<le> H" "H < 2 ^ 64"
  proof -
    show "1 \<le> H" using h(1) by (simp add: H_def)
    show "H < 2 ^ 64"
      unfolding H_def using h(2) by (metis of_nat_less_iff of_nat_numeral of_nat_power)
  qed
  have "pow2 (- 1022) \<le> H" using H(1) by (simp add: p1022)
  moreover have "H < 2 ^ 1023"
  proof -
    have "(2 :: rat) ^ 64 \<le> 2 ^ 1023" by (rule power_increasing) simp_all
    with H(2) show ?thesis by linarith
  qed
  ultimately obtain d where d: "round64 H = Finite d" "\<bar>d - H\<bar> \<le> H / 2 ^ 53"
    using round64_normal by blast
  from rel_bounds [OF d(2)] have db: "H * k1 \<le> d" "d \<le> H * k2"
    by (simp_all add: k1_def k2_def)
  have "H * (1 / 2) \<le> H * k1" using k(3) H(1) by (simp add: mult_left_mono)
  with db(1) H(1) have dlo: "1 / 2 \<le> d" by linarith
  then have dpos: "0 < d" by linarith
  have "H * k2 \<le> H * 2" using k(4) H(1) by (simp add: mult_left_mono)
  with db(2) H(2) have dhi: "d \<le> 2 ^ 65" by simp
  define a where "a = G / d"
  have Gpos: "0 < G" by (simp add: G_def)
  have apos: "0 < a" using dpos by (simp add: a_def G_def)
  have alo: "G / 2 ^ 65 \<le> a"
    unfolding a_def using dhi dpos Gpos by (intro divide_left_mono) simp_all
  have "G / d \<le> G / (1 / 2)"
    using dlo Gpos by (intro divide_left_mono) simp_all
  then have ahi: "a \<le> 2 * G"
    by (simp add: a_def)
  have "pow2 (- 1022) \<le> G / 2 ^ 65" by (simp add: p1022 G_def)
  with alo have a1: "pow2 (- 1022) \<le> a" by linarith
  have "2 * G < 2 ^ 1023" by (simp add: G_def)
  with ahi have a2: "a < 2 ^ 1023" by linarith
  from round64_normal [OF a1 a2]
  obtain q where q: "round64 a = Finite q" "\<bar>q - a\<bar> \<le> a / 2 ^ 53"
    by blast
  from rel_bounds [OF q(2)] have qb: "a * k1 \<le> q" "q \<le> a * k2"
    by (simp_all add: k1_def k2_def)
  have "a * (1 / 2) \<le> a * k1" using k(3) apos by (simp add: mult_left_mono)
  with qb(1) alo have qlo: "G / 2 ^ 66 \<le> q" by simp
  then have qpos: "0 < q" by (simp add: G_def)
  have "a * k2 \<le> a * 2" using k(4) apos by (simp add: mult_left_mono)
  with qb(2) ahi have qhi: "q \<le> 4 * G" by simp
  have fd: "to_double h = Finite d"
    using d(1) by (simp add: to_double_def H_def)
  have fq: "fdiv (Finite 1000000000) (to_double h) = Finite q"
    using q(1) dpos by (simp add: fd a_def G_def)
  from fd fq dpos qpos db qb qlo qhi show ?thesis
    unfolding a_def G_def H_def k1_def k2_def by blast
qed

lemma id_cycles_quotient:
  assumes h: "0 < h" "h < 2 ^ 64" and t: "0 < t" "t < 2 ^ 32"
  shows "\<exists>r. fdiv (to_double t) (fdiv (Finite 1000000000) (to_double h)) = Finite r \<and>
             of_nat t * of_nat h / 1000000000 * (1 - 1 / 2 ^ 51) \<le> r \<and>
             r \<le> of_nat t * of_nat h / 1000000000 * (1 + 1 / 2 ^ 51)"
proof -
  define H :: rat where "H = of_nat h"
  define T :: rat where "T = of_nat t"
  define G :: rat where "G = 1000000000"
  define k1 :: rat where "k1 = 1 - 1 / 2 ^ 53"
  define k2 :: rat where "k2 = 1 + 1 / 2 ^ 53"
  have k: "0 < k1" "0 < k2"
    by (simp_all add: k1_def k2_def)
  have p1022: "pow2 (- 1022) = 1 / 2 ^ 1022"
    using pow2_neg [of 1022] by simp
  have Gpos: "0 < G" by (simp add: G_def)
  have Hpos: "0 < H" using h(1) by (simp add: H_def)
  have T: "1 \<le> T" "T < 2 ^ 32"
  proof -
    show "1 \<le> T" using t(1) by (simp add: T_def)
    show "T < 2 ^ 32"
      unfolding T_def using t(2) by (metis of_nat_less_iff of_nat_numeral of_nat_power)
  qed
  from cycle_length_bounds [OF h]
  obtain d q where fq: "fdiv (Finite 1000000000) (to_double h) = Finite q"
    and dpos: "0 < d" and qpos: "0 < q"
    and db: "H * k1 \<le> d" "d \<le> H * k2"
    and qb: "G / d * k1 \<le> q" "q \<le> G / d * k2"
    and qlo: "G / 2 ^ 66 \<le> q" and qhi: "q \<le> 4 * G"
    unfolding H_def G_def k1_def k2_def by blast
  have tt: "to_double t = Finite T"
  proof -
    have "(2 :: nat) ^ 32 \<le> 2 ^ 53" by (rule power_increasing) simp_all
    with t(2) have "t < 2 ^ 53" by linarith
    from to_double_exact [OF this] show ?thesis by (simp add: T_def)
  qed
  define c where "c = T / q"
  have cpos: "0 < c" using qpos T(1) by (simp add: c_def)
  have "1 / (4 * G) \<le> T / q"
    using qhi qpos T(1) Gpos by (intro frac_le) simp_all
  then have clo: "1 / (4 * G) \<le> c" by (simp add: c_def)
  have "T / q \<le> 2 ^ 32 / (G / 2 ^ 66)"
    using T qlo qpos Gpos by (intro frac_le) simp_all
  then have chi: "c \<le> 2 ^ 98 / G" by (simp add: c_def)
  have "pow2 (- 1022) \<le> 1 / (4 * G)" by (simp add: p1022 G_def)
  with clo have c1: "pow2 (- 1022) \<le> c" by linarith
  have "2 ^ 98 / G < 2 ^ 1023" by (simp add: G_def)
  with chi have c2: "c < 2 ^ 1023" by linarith
  from round64_normal [OF c1 c2]
  obtain r where r: "round64 c = Finite r" "\<bar>r - c\<bar> \<le> c / 2 ^ 53"
    by blast
  from rel_bounds [OF r(2)] have rb: "c * k1 \<le> r" "r \<le> c * k2"
    by (simp_all add: k1_def k2_def)
  from rb(1) cpos k(1) have rpos: "0 \<le> r"
    by (meson mult_nonneg_nonneg less_imp_le order_trans)
  have fr: "fdiv (to_double t) (fdiv (Finite 1000000000) (to_double h)) = Finite r"
    using r(1) qpos by (simp add: fq tt c_def)
  have Tpos: "0 < T" using T(1) by simp
  from interval_quotient [OF Tpos Hpos Gpos k(1,2) dpos qpos rpos db qb rb [unfolded c_def]]
  have up: "r * (G * k1) \<le> T * H * (k2 * k2)" and dn: "T * H * (k1 * k1) \<le> r * (G * k2)"
    by simp_all
  define X where "X = T * H / G"
  have Xpos: "0 \<le> X" using Tpos Hpos Gpos by (simp add: X_def)
  have "r \<le> X * (k2 * k2 / k1)"
    using up Gpos k(1) by (simp add: X_def field_simps)
  also have "\<dots> \<le> X * (1 + 1 / 2 ^ 51)"
    using Xpos by (intro mult_left_mono) (simp_all add: k1_def k2_def)
  finally have 1: "r \<le> X * (1 + 1 / 2 ^ 51)" .
  have "X * (1 - 1 / 2 ^ 51) \<le> X * (k1 * k1 / k2)"
    using Xpos by (intro mult_left_mono) (simp_all add: k1_def k2_def)
  also have "\<dots> \<le> r"
    using dn Gpos k(2) by (simp add: X_def field_simps)
  finally have 2: "X * (1 - 1 / 2 ^ 51) \<le> r" .
  from fr 1 2 show ?thesis
    unfolding X_def T_def H_def G_def by blast
qed

lemma unat_32_bound: "unat (w :: 32 word) < 2 ^ 32"
  using unsigned_less [of w, where ?'a = nat] by simp

lemma unat_64_bound: "unat (w :: 64 word) < 2 ^ 64"
  using unsigned_less [of w, where ?'a = nat] by simp

lemma to_uint64_finite:
  assumes "0 \<le> r"
  shows "(r < 2 ^ 64 \<longrightarrow> (\<exists>c. to_uint64 (Finite r) = Some c)) \<and>
         (\<forall>c. to_uint64 (Finite r) = Some c \<longrightarrow>
              r - 1 < of_nat (unat c) \<and> of_nat (unat c) \<le> r)"
proof -
  from assms have f0: "0 \<le> \<lfloor>r\<rfloor>" by simp
  have a: "\<exists>c. to_uint64 (Finite r) = Some c" if "r < 2 ^ 64"
  proof -
    from that have "\<lfloor>r\<rfloor> < 2 ^ 64" by (simp add: floor_less_iff)
    then show ?thesis by (simp add: to_uint64_def)
  qed
  have b: "r - 1 < of_nat (unat c) \<and> of_nat (unat c) \<le> r" if "to_uint64 (Finite r) = Some c" for c
  proof -
    from that have lt: "\<lfloor>r\<rfloor> < 2 ^ 64" and c: "c = word_of_int \<lfloor>r\<rfloor>"
      by (auto simp: to_uint64_def split: if_splits)
    from f0 lt have "unat c = nat \<lfloor>r\<rfloor>"
      unfolding c by (simp add: unat_eq_nat_uint uint_word_of_int take_bit_eq_mod)
    with f0 have "(of_nat (unat c) :: rat) = of_int \<lfloor>r\<rfloor>" by simp
    moreover have "of_int \<lfloor>r\<rfloor> \<le> r" "r - 1 < of_int \<lfloor>r\<rfloor>" by linarith+
    ultimately show ?thesis by simp
  qed
  from a b show ?thesis by blast
qed

lemma id_cycles_of_zero_hz: "id_cycles_of target 0 = Some 0"
proof (cases "unat target = 0")
  case True
  then show ?thesis
    by (simp add: id_cycles_of_def to_double_def round64_def to_uint64_def)
next
  case False
  have "(2 :: nat) ^ 32 \<le> 2 ^ 53" by (rule power_increasing) simp_all
  with unat_32_bound [of target] have "unat target < 2 ^ 53" by linarith
  from to_double_exact [OF this] show ?thesis
    by (simp add: id_cycles_of_def round64_def to_uint64_def to_double_def [of 0])
qed

lemma id_cycles_of_zero_target: "hz \<noteq> 0 \<Longrightarrow> id_cycles_of 0 hz = Some 0"
proof -
  assume "hz \<noteq> 0"
  then have h: "0 < unat hz" by (simp add: unat_gt_0)
  from cycle_length_bounds [OF h unat_64_bound]
  obtain q where q: "fdiv (Finite 1000000000) (to_double (unat hz)) = Finite q" "0 < q"
    by blast
  then show ?thesis
    by (simp add: id_cycles_of_def to_double_def [of 0] round64_def to_uint64_def)
qed

subsection \<open>Conversions between the integer types of the loops\<close>

lemma unat_16_bound: "unat (w :: 16 word) < 65536"
  using unsigned_less [of w, where ?'a = nat] by simp

lemma unat_ucast_32_16: "unat (ucast (w :: 32 word) :: 16 word) = unat w mod 65536"
  by (simp add: unsigned_ucast_eq take_bit_eq_mod unsigned_take_bit_eq)

lemma unat_ucast_16_32: "unat (ucast (w :: 16 word) :: 32 word) = unat w"
  using unat_16_bound [of w]
  by (simp add: unsigned_ucast_eq take_bit_eq_mod unsigned_take_bit_eq)

lemma unat_lt_batch: "(s :: 32 word) < of_nat batch_size \<Longrightarrow> unat s < batch_size"
  by (simp add: batch_size_def word_less_nat_alt)

lemma unat_ge_batch: "\<not> (s :: 32 word) < of_nat batch_size \<Longrightarrow> batch_size \<le> unat s"
  by (simp add: batch_size_def word_less_nat_alt)

lemma unat_remaining:
  "(s :: 32 word) < of_nat batch_size \<Longrightarrow>
     unat (ucast (of_nat batch_size - s :: 32 word) :: 16 word) = batch_size - unat s"
  apply (simp add: batch_size_def unat_ucast_32_16)
  apply (simp add: word_less_nat_alt unat_sub word_le_nat_alt)
  done

lemma unat_sent_add:
  "unat (s :: 32 word) \<le> batch_size \<Longrightarrow> unat (s + ucast (r :: 16 word)) = unat s + unat r"
  using unat_16_bound [of r]
  by (simp add: unat_word_ariths unat_ucast_16_32 batch_size_def)

subsection \<open>The stream of accepted handles\<close>

lemma dequeued_Suc:
  "dequeued e (Suc n) =
     dequeued e n @ (if fst (ring_dequeue e n) = 0 then snd (ring_dequeue e n) else [])"
  by (simp add: dequeued_def)

lemma sunk_snoc: "sunk (cs @ [c]) = sunk cs @ tx_accepted c"
  by (simp add: sunk_def)

lemma prefix_ok_snoc:
  assumes "prefix_ok e cs"
    and "sunk cs = dequeued e (tx_batch c) @ take (unat (tx_off c)) (snd (ring_dequeue e (tx_batch c)))"
  shows "prefix_ok e (cs @ [c])"
  unfolding prefix_ok_def
proof (intro allI impI)
  fix i
  assume "i < length (cs @ [c])"
  then consider "i < length cs" | "i = length cs" by fastforce
  then show "sunk (take i (cs @ [c])) =
      dequeued e (tx_batch ((cs @ [c]) ! i)) @
      take (unat (tx_off ((cs @ [c]) ! i))) (snd (ring_dequeue e (tx_batch ((cs @ [c]) ! i))))"
  proof cases
    case 1
    with assms(1) show ?thesis by (simp add: prefix_ok_def nth_append)
  next
    case 2
    with assms(2) show ?thesis by simp
  qed
qed

subsection \<open>\<open>main_loop\<close>\<close>

lemma main_loop_Suc: "main_loop e b (Suc n) = main_loop_step e (main_loop e b n)"
  by (simp add: main_loop_def)

lemma main_loop_step_poll:
  "pc s = Poll \<Longrightarrow>
   main_loop_step e s =
     (if fst (ring_dequeue e (n_deq s)) = 0
      then s\<lparr>bufs := snd (ring_dequeue e (n_deq s)), n_deq := Suc (n_deq s), sent := 0,
             pc := Inner\<rparr>
      else s\<lparr>bufs := snd (ring_dequeue e (n_deq s)), n_deq := Suc (n_deq s)\<rparr>)"
  by (simp add: main_loop_step_def Let_def split: prod.splits)

lemma main_loop_step_exit:
  "pc s = Inner \<Longrightarrow> \<not> sent s < of_nat batch_size \<Longrightarrow> main_loop_step e s = s\<lparr>pc := Poll\<rparr>"
  by (simp add: main_loop_step_def)

lemma main_loop_step_send:
  "pc s = Inner \<Longrightarrow> sent s < of_nat batch_size \<Longrightarrow>
   main_loop_step e s =
     s\<lparr>sent := sent s + ucast (rte_eth_tx_burst e (n_tx s) (ucast (of_nat batch_size - sent s))),
       n_tx := Suc (n_tx s),
       calls := calls s @
         [\<lparr>tx_batch = n_deq s - 1, tx_off = sent s,
           tx_nb = ucast (of_nat batch_size - sent s),
           tx_pkts = take (unat (ucast (of_nat batch_size - sent s) :: 16 word))
                       (drop (unat (sent s)) (bufs s)),
           tx_ret = rte_eth_tx_burst e (n_tx s) (ucast (of_nat batch_size - sent s))\<rparr>]\<rparr>"
  by (simp add: main_loop_step_def Let_def)

lemma main_loop_bounds_step:
  assumes "sink_ok e" "main_loop_bounds s"
  shows "main_loop_bounds (main_loop_step e s)"
proof (cases "pc s")
  case Poll
  with assms(2) show ?thesis
    by (simp add: main_loop_step_poll main_loop_bounds_def)
next
  case Inner
  show ?thesis
  proof (cases "sent s < of_nat batch_size")
    case False
    with Inner assms(2) show ?thesis
      by (simp add: main_loop_step_exit main_loop_bounds_def)
  next
    case True
    define nb :: "16 word" where "nb = ucast (of_nat batch_size - sent s)"
    define r where "r = rte_eth_tx_burst e (n_tx s) nb"
    have lt: "unat (sent s) < batch_size" by (rule unat_lt_batch [OF True])
    have nb: "unat nb = batch_size - unat (sent s)"
      unfolding nb_def by (rule unat_remaining [OF True])
    have rnb: "r \<le> nb" using assms(1) by (simp add: sink_ok_def r_def)
    then have r: "unat r \<le> batch_size - unat (sent s)"
      using nb by (simp add: word_le_nat_alt)
    have sent': "unat (sent s + ucast r) = unat (sent s) + unat r"
      using lt by (simp add: unat_sent_add)
    show ?thesis
      unfolding main_loop_step_send [OF Inner True] nb_def [symmetric] r_def [symmetric]
      using assms(2) lt nb rnb r sent'
      by (auto simp: main_loop_bounds_def in_bounds_def)
  qed
qed

lemma main_loop_bounds_run:
  assumes "sink_ok e"
  shows "main_loop_bounds (main_loop e b n)"
proof (induction n)
  case 0
  show ?case by (simp add: main_loop_def main_loop_init_def main_loop_bounds_def)
next
  case (Suc n)
  then show ?case by (simp add: main_loop_Suc main_loop_bounds_step [OF assms])
qed

lemma main_loop_inv_poll:
  assumes "main_loop_inv e s" "pc s = Poll"
  shows "main_loop_inv e (main_loop_step e s)"
  using assms
  by (simp add: main_loop_step_poll main_loop_inv_def dequeued_Suc)

lemma main_loop_inv_exit:
  assumes "ring_ok e" "main_loop_bounds s" "main_loop_inv e s" "pc s = Inner"
    "\<not> sent s < of_nat batch_size"
  shows "main_loop_inv e (main_loop_step e s)"
proof -
  from assms have n: "n_deq s = Suc (n_deq s - 1)"
    and rc: "fst (ring_dequeue e (n_deq s - 1)) = 0"
    and le: "unat (sent s) \<le> batch_size"
    by (simp_all add: main_loop_inv_def main_loop_bounds_def)
  from unat_ge_batch [OF assms(5)] le have "unat (sent s) = batch_size" by simp
  moreover from assms(1) rc have "length (snd (ring_dequeue e (n_deq s - 1))) = batch_size"
    by (simp add: ring_ok_def)
  moreover have "dequeued e (n_deq s) =
      dequeued e (n_deq s - 1) @ snd (ring_dequeue e (n_deq s - 1))"
    using dequeued_Suc [of e "n_deq s - 1"] n rc by simp
  ultimately show ?thesis
    using assms by (simp add: main_loop_inv_def main_loop_step_exit)
qed

lemma main_loop_inv_send:
  assumes "sink_ok e" "main_loop_inv e s" "pc s = Inner" "sent s < of_nat batch_size"
  shows "main_loop_inv e (main_loop_step e s)"
proof -
  define nb :: "16 word" where "nb = ucast (of_nat batch_size - sent s)"
  define r where "r = rte_eth_tx_burst e (n_tx s) nb"
  define B where "B = snd (ring_dequeue e (n_deq s - 1))"
  have lt: "unat (sent s) < batch_size" by (rule unat_lt_batch [OF assms(4)])
  have nb: "unat nb = batch_size - unat (sent s)"
    unfolding nb_def by (rule unat_remaining [OF assms(4)])
  have rnb: "r \<le> nb" using assms(1) by (simp add: sink_ok_def r_def)
  then have r: "unat r \<le> batch_size - unat (sent s)"
    using nb by (simp add: word_le_nat_alt)
  have sent': "unat (sent s + ucast r) = unat (sent s) + unat r"
    using lt by (simp add: unat_sent_add)
  from assms have rc: "fst (ring_dequeue e (n_deq s - 1)) = 0"
    and b: "bufs s = B"
    and sk: "sunk (calls s) = dequeued e (n_deq s - 1) @ take (unat (sent s)) B"
    and cs: "\<forall>c \<in> set (calls s). call_ok e c"
    and pf: "prefix_ok e (calls s)"
    and pos: "0 < n_deq s"
    by (simp_all add: main_loop_inv_def B_def)
  define c where "c = \<lparr>tx_batch = n_deq s - 1, tx_off = sent s, tx_nb = nb,
     tx_pkts = take (unat nb) (drop (unat (sent s)) B), tx_ret = r\<rparr>"
  have step: "main_loop_step e s =
      s\<lparr>sent := sent s + ucast r, n_tx := Suc (n_tx s), calls := calls s @ [c]\<rparr>"
    by (simp add: main_loop_step_send [OF assms(3,4)] nb_def r_def c_def b)
  have tk: "take (unat (sent s)) B @ take (unat r) (take (unat nb) (drop (unat (sent s)) B))
            = take (unat (sent s) + unat r) B"
    using r nb by (simp add: take_add min_def)
  have pf': "prefix_ok e (calls s @ [c])"
    by (rule prefix_ok_snoc [OF pf]) (simp add: c_def sk B_def)
  have ok: "call_ok e c"
    using rc by (simp add: call_ok_def c_def B_def)
  have sk': "sunk (calls s @ [c]) = dequeued e (n_deq s - 1) @ take (unat (sent s) + unat r) B"
    using tk by (simp add: sunk_snoc sk tx_accepted_def c_def)
  show ?thesis
    unfolding step main_loop_inv_def
    using assms(3) sent' rc b cs pos pf' ok sk'
    by (simp add: B_def)
qed

lemma main_loop_inv_step:
  assumes "sink_ok e" "ring_ok e" "main_loop_bounds s" "main_loop_inv e s"
  shows "main_loop_inv e (main_loop_step e s)"
  using assms main_loop_inv_poll main_loop_inv_exit main_loop_inv_send
  by (cases "pc s"; cases "sent s < of_nat batch_size") blast+

lemma main_loop_inv_run:
  assumes "sink_ok e" "ring_ok e"
  shows "main_loop_inv e (main_loop e b n)"
proof (induction n)
  case 0
  show ?case
    by (simp add: main_loop_def main_loop_init_def main_loop_inv_def sunk_def dequeued_def
        prefix_ok_def)
next
  case (Suc n)
  then show ?case
    by (simp add: main_loop_Suc main_loop_inv_step [OF assms main_loop_bounds_run [OF assms(1)]])
qed

subsection \<open>\<open>main_loop_cbr\<close>\<close>

lemma main_loop_cbr_Suc:
  "main_loop_cbr e hz idc b (Suc n) = main_loop_cbr_step e (main_loop_cbr e hz idc b n)"
  by (simp add: main_loop_cbr_def)

lemma cbr_step_poll:
  "cbr_pc s = CPoll \<Longrightarrow>
   main_loop_cbr_step e s =
     (let c = rte_get_tsc_cycles e (cbr_n_tsc s);
          s1 = s\<lparr>cbr_bufs := snd (ring_dequeue e (cbr_n_deq s)),
                  cbr_n_deq := Suc (cbr_n_deq s), cur := c, cbr_n_tsc := Suc (cbr_n_tsc s),
                  next_send := (if c - next_send s > tsc_hz s div 100 then c else next_send s)\<rparr>
      in if fst (ring_dequeue e (cbr_n_deq s)) = 0 then s1\<lparr>cbr_sent := 0, cbr_pc := CInner\<rparr>
         else s1)"
  by (simp add: main_loop_cbr_step_def Let_def split: prod.splits)

lemma cbr_step_guard:
  "cbr_pc s = CInner \<Longrightarrow>
   main_loop_cbr_step e s =
     (if cbr_sent s < of_nat batch_size then s\<lparr>cbr_pc := CSpin, wait_from := next_send s\<rparr>
      else s\<lparr>cbr_pc := CPoll\<rparr>)"
  by (simp add: main_loop_cbr_step_def)

lemma cbr_step_spin:
  "cbr_pc s = CSpin \<Longrightarrow>
   main_loop_cbr_step e s =
     (if rte_get_tsc_cycles e (cbr_n_tsc s) < next_send s
      then s\<lparr>cur := rte_get_tsc_cycles e (cbr_n_tsc s), cbr_n_tsc := Suc (cbr_n_tsc s)\<rparr>
      else s\<lparr>cur := rte_get_tsc_cycles e (cbr_n_tsc s), cbr_n_tsc := Suc (cbr_n_tsc s),
             cbr_pc := CSend\<rparr>)"
  by (simp add: main_loop_cbr_step_def Let_def)

lemma cbr_step_send:
  "cbr_pc s = CSend \<Longrightarrow>
   main_loop_cbr_step e s =
     s\<lparr>next_send := next_send s + id_cycles s,
       cbr_sent := cbr_sent s + ucast (rte_eth_tx_burst e (cbr_n_tx s) 1),
       cbr_n_tx := Suc (cbr_n_tx s),
       cbr_pc := CInner,
       cbr_calls := cbr_calls s @
         [\<lparr>tx_batch = cbr_n_deq s - 1, tx_off = cbr_sent s, tx_nb = 1,
           tx_pkts = take 1 (drop (unat (cbr_sent s)) (cbr_bufs s)),
           tx_ret = rte_eth_tx_burst e (cbr_n_tx s) 1,
           tx_sched = wait_from s, tx_cycle = cur s\<rparr>]\<rparr>"
  by (simp add: main_loop_cbr_step_def Let_def)

lemmas cbr_step_simps = cbr_step_poll cbr_step_guard cbr_step_spin cbr_step_send

lemma cbr_timing_inv_step:
  assumes "cbr_timing_inv hz idc s"
  shows "cbr_timing_inv hz idc (main_loop_cbr_step e s)"
  using assms
  by (cases "cbr_pc s") (auto simp: cbr_timing_inv_def cbr_step_simps Let_def not_less)

lemma cbr_timing_inv_run: "cbr_timing_inv hz idc (main_loop_cbr e hz idc b n)"
proof (induction n)
  case 0
  show ?case by (simp add: main_loop_cbr_def main_loop_cbr_init_def cbr_timing_inv_def)
next
  case (Suc n)
  then show ?case by (simp add: main_loop_cbr_Suc cbr_timing_inv_step)
qed

lemma cbr_bounds_step:
  assumes "sink_ok e" "cbr_bounds s"
  shows "cbr_bounds (main_loop_cbr_step e s)"
proof (cases "cbr_pc s")
  case CPoll
  with assms(2) show ?thesis
    by (simp add: cbr_step_poll cbr_bounds_def Let_def)
next
  case CInner
  with assms(2) show ?thesis
    by (auto simp: cbr_step_guard cbr_bounds_def dest: unat_lt_batch)
next
  case CSpin
  with assms(2) show ?thesis
    by (simp add: cbr_step_spin cbr_bounds_def)
next
  case CSend
  define r where "r = rte_eth_tx_burst e (cbr_n_tx s) 1"
  from assms(2) CSend have lt: "unat (cbr_sent s) < batch_size"
    by (simp add: cbr_bounds_def)
  have rnb: "r \<le> 1" using assms(1) by (simp add: sink_ok_def r_def)
  then have r: "unat r \<le> 1"
    by (simp add: word_le_nat_alt)
  have sent': "unat (cbr_sent s + ucast r) = unat (cbr_sent s) + unat r"
    using lt by (simp add: unat_sent_add)
  show ?thesis
    unfolding cbr_step_send [OF CSend] r_def [symmetric]
    using assms(2) lt rnb r sent'
    by (auto simp: cbr_bounds_def in_bounds_def)
qed

lemma cbr_bounds_run:
  assumes "sink_ok e"
  shows "cbr_bounds (main_loop_cbr e hz idc b n)"
proof (induction n)
  case 0
  show ?case by (simp add: main_loop_cbr_def main_loop_cbr_init_def cbr_bounds_def)
next
  case (Suc n)
  then show ?case by (simp add: main_loop_cbr_Suc cbr_bounds_step [OF assms])
qed

lemma cbr_inv_poll:
  assumes "cbr_inv e s" "cbr_pc s = CPoll"
  shows "cbr_inv e (main_loop_cbr_step e s)"
  using assms
  by (simp add: cbr_step_poll cbr_inv_def in_batch_def dequeued_Suc Let_def)

lemma cbr_inv_guard:
  assumes "ring_ok e" "cbr_bounds s" "cbr_inv e s" "cbr_pc s = CInner"
  shows "cbr_inv e (main_loop_cbr_step e s)"
proof (cases "cbr_sent s < of_nat batch_size")
  case True
  with assms(3,4) show ?thesis
    by (simp add: cbr_inv_def in_batch_def cbr_step_guard)
next
  case False
  from assms have n: "cbr_n_deq s = Suc (cbr_n_deq s - 1)"
    and rc: "fst (ring_dequeue e (cbr_n_deq s - 1)) = 0"
    and le: "unat (cbr_sent s) \<le> batch_size"
    by (simp_all add: cbr_inv_def in_batch_def cbr_bounds_def)
  from unat_ge_batch [OF False] le have "unat (cbr_sent s) = batch_size" by simp
  moreover from assms(1) rc
  have "length (snd (ring_dequeue e (cbr_n_deq s - 1))) = batch_size"
    by (simp add: ring_ok_def)
  moreover have "dequeued e (cbr_n_deq s) =
      dequeued e (cbr_n_deq s - 1) @ snd (ring_dequeue e (cbr_n_deq s - 1))"
    using dequeued_Suc [of e "cbr_n_deq s - 1"] n rc by simp
  ultimately show ?thesis
    using assms False by (simp add: cbr_inv_def in_batch_def cbr_step_guard)
qed

lemma cbr_inv_spin:
  assumes "cbr_inv e s" "cbr_pc s = CSpin"
  shows "cbr_inv e (main_loop_cbr_step e s)"
  using assms by (simp add: cbr_inv_def in_batch_def cbr_step_spin)

lemma cbr_inv_send:
  assumes "sink_ok e" "cbr_bounds s" "cbr_inv e s" "cbr_pc s = CSend"
  shows "cbr_inv e (main_loop_cbr_step e s)"
proof -
  define r where "r = rte_eth_tx_burst e (cbr_n_tx s) 1"
  define B where "B = snd (ring_dequeue e (cbr_n_deq s - 1))"
  from assms have lt: "unat (cbr_sent s) < batch_size"
    by (simp add: cbr_bounds_def)
  have rnb: "r \<le> 1" using assms(1) by (simp add: sink_ok_def r_def)
  then have r: "unat r \<le> 1"
    by (simp add: word_le_nat_alt)
  have sent': "unat (cbr_sent s + ucast r) = unat (cbr_sent s) + unat r"
    using lt by (simp add: unat_sent_add)
  from assms have rc: "fst (ring_dequeue e (cbr_n_deq s - 1)) = 0"
    and b: "cbr_bufs s = B"
    and sk: "sunk (cbr_calls s) = dequeued e (cbr_n_deq s - 1) @ take (unat (cbr_sent s)) B"
    and cs: "\<forall>c \<in> set (cbr_calls s). call_ok e c"
    and pf: "prefix_ok e (cbr_calls s)"
    and pos: "0 < cbr_n_deq s"
    by (simp_all add: cbr_inv_def in_batch_def B_def)
  define c where "c = \<lparr>tx_batch = cbr_n_deq s - 1, tx_off = cbr_sent s, tx_nb = 1,
     tx_pkts = take 1 (drop (unat (cbr_sent s)) B), tx_ret = r,
     tx_sched = wait_from s, tx_cycle = cur s\<rparr>"
  have step: "main_loop_cbr_step e s =
      s\<lparr>next_send := next_send s + id_cycles s, cbr_sent := cbr_sent s + ucast r,
        cbr_n_tx := Suc (cbr_n_tx s), cbr_pc := CInner, cbr_calls := cbr_calls s @ [c]\<rparr>"
    by (simp add: cbr_step_send [OF assms(4)] r_def c_def b)
  have tk: "take (unat (cbr_sent s)) B @ take (unat r) (take 1 (drop (unat (cbr_sent s)) B))
            = take (unat (cbr_sent s) + unat r) B"
    using r by (simp add: take_add min_def)
  have pf': "prefix_ok e (cbr_calls s @ [c])"
    by (rule prefix_ok_snoc [OF pf]) (simp add: c_def sk B_def)
  have ok: "call_ok e c"
    using rc by (simp add: call_ok_def c_def B_def)
  have sk': "sunk (cbr_calls s @ [c]) =
      dequeued e (cbr_n_deq s - 1) @ take (unat (cbr_sent s) + unat r) B"
    using tk by (simp add: sunk_snoc sk tx_accepted_def c_def)
  show ?thesis
    unfolding step cbr_inv_def in_batch_def
    using sent' rc b cs pos pf' ok sk'
    by (simp add: B_def)
qed

lemma cbr_inv_step:
  assumes "sink_ok e" "ring_ok e" "cbr_bounds s" "cbr_inv e s"
  shows "cbr_inv e (main_loop_cbr_step e s)"
  using assms cbr_inv_poll cbr_inv_guard cbr_inv_spin cbr_inv_send
  by (cases "cbr_pc s") blast+

lemma cbr_inv_run:
  assumes "sink_ok e" "ring_ok e"
  shows "cbr_inv e (main_loop_cbr e hz idc b n)"
proof (induction n)
  case 0
  show ?case
    by (simp add: main_loop_cbr_def main_loop_cbr_init_def cbr_inv_def sunk_def dequeued_def
        prefix_ok_def)
next
  case (Suc n)
  then show ?case
    by (simp add: main_loop_cbr_Suc cbr_inv_step [OF assms cbr_bounds_run [OF assms(1)]])
qed

lemma follows_snoc:
  assumes "\<forall>i. Suc i < length cs \<longrightarrow> follows idc (cs ! i) (cs ! Suc i)"
    and "cs \<noteq> [] \<longrightarrow> follows idc (last cs) c"
  shows "\<forall>i. Suc i < length (cs @ [c]) \<longrightarrow> follows idc ((cs @ [c]) ! i) ((cs @ [c]) ! Suc i)"
proof (intro allI impI)
  fix i
  assume "Suc i < length (cs @ [c])"
  then consider "Suc i < length cs" | "Suc i = length cs" by fastforce
  then show "follows idc ((cs @ [c]) ! i) ((cs @ [c]) ! Suc i)"
  proof cases
    case 1
    with assms(1) show ?thesis by (simp add: nth_append)
  next
    case 2
    then have ne: "cs \<noteq> []" by auto
    from 2 have "i = length cs - 1" by simp
    with ne have "cs ! i = last cs" by (simp add: last_conv_nth)
    with assms(2) 2 ne show ?thesis by (simp add: nth_append)
  qed
qed

lemma cbr_seq_inv_step:
  assumes "cbr_seq_inv idc s"
  shows "cbr_seq_inv idc (main_loop_cbr_step e s)"
proof (cases "cbr_pc s")
  case CPoll
  show ?thesis
  proof (cases "cbr_calls s = []")
    case True
    with CPoll assms show ?thesis
      by (auto simp: cbr_step_poll cbr_seq_inv_def Let_def)
  next
    case False
    then have "last (cbr_calls s) \<in> set (cbr_calls s)" by simp
    with assms have lt: "tx_batch (last (cbr_calls s)) < cbr_n_deq s"
      by (simp add: cbr_seq_inv_def)
    from assms CPoll False have "tx_ret (last (cbr_calls s)) \<noteq> 0"
      by (auto simp: cbr_seq_inv_def tail_ok_def)
    with CPoll assms lt show ?thesis
      by (auto simp: cbr_step_poll cbr_seq_inv_def tail_ok_def Let_def less_Suc_eq)
  qed
next
  case CInner
  with assms show ?thesis
    by (auto simp: cbr_step_guard cbr_seq_inv_def tail_ok_def)
next
  case CSpin
  with assms show ?thesis
    by (auto simp: cbr_step_spin cbr_seq_inv_def tail_ok_def)
next
  case CSend
  define r where "r = rte_eth_tx_burst e (cbr_n_tx s) 1"
  define c where "c = \<lparr>tx_batch = cbr_n_deq s - 1, tx_off = cbr_sent s, tx_nb = 1,
     tx_pkts = take 1 (drop (unat (cbr_sent s)) (cbr_bufs s)), tx_ret = r,
     tx_sched = wait_from s, tx_cycle = cur s\<rparr>"
  have step: "main_loop_cbr_step e s =
      s\<lparr>next_send := next_send s + id_cycles s, cbr_sent := cbr_sent s + ucast r,
        cbr_n_tx := Suc (cbr_n_tx s), cbr_pc := CInner, cbr_calls := cbr_calls s @ [c]\<rparr>"
    by (simp add: cbr_step_send [OF CSend] r_def c_def)
  from assms CSend have idc: "id_cycles s = idc" and w: "wait_from s = next_send s"
    and lt: "cbr_sent s < of_nat batch_size"
    and old: "\<forall>c \<in> set (cbr_calls s). tx_batch c < cbr_n_deq s"
    and adj: "\<forall>i. Suc i < length (cbr_calls s) \<longrightarrow>
          follows idc (cbr_calls s ! i) (cbr_calls s ! Suc i)"
    and tl: "cbr_calls s \<noteq> [] \<longrightarrow> tail_ok idc s (last (cbr_calls s))"
    and pos: "0 < cbr_n_deq s"
    by (simp_all add: cbr_seq_inv_def)
  have f: "cbr_calls s \<noteq> [] \<longrightarrow> follows idc (last (cbr_calls s)) c"
    using tl CSend by (auto simp: follows_def tail_ok_def c_def)
  have adj': "\<forall>i. Suc i < length (cbr_calls s @ [c]) \<longrightarrow>
      follows idc ((cbr_calls s @ [c]) ! i) ((cbr_calls s @ [c]) ! Suc i)"
    by (rule follows_snoc [OF adj f])
  have r0: "r = 0 \<Longrightarrow> cbr_sent s + ucast r = cbr_sent s" by simp
  show ?thesis
    unfolding step cbr_seq_inv_def
    using idc w lt old adj' r0 pos
    by (simp add: tail_ok_def c_def)
qed

lemma cbr_seq_inv_run: "cbr_seq_inv idc (main_loop_cbr e hz idc b n)"
proof (induction n)
  case 0
  show ?case by (simp add: main_loop_cbr_def main_loop_cbr_init_def cbr_seq_inv_def)
next
  case (Suc n)
  then show ?case by (simp add: main_loop_cbr_Suc cbr_seq_inv_step)
qed

subsection \<open>Facts about single transitions\<close>

lemma idle_main_loop:
  assumes "\<forall>k. fst (ring_dequeue e k) \<noteq> 0"
  shows "calls (main_loop e b n) = [] \<and> n_tx (main_loop e b n) = 0 \<and>
         pc (main_loop e b n) = Poll \<and> n_deq (main_loop e b n) = n"
proof (induction n)
  case 0
  show ?case by (simp add: main_loop_def main_loop_init_def)
next
  case (Suc n)
  with assms show ?case by (simp add: main_loop_Suc main_loop_step_poll)
qed

lemma idle_main_loop_cbr:
  assumes "\<forall>k. fst (ring_dequeue e k) \<noteq> 0"
  shows "cbr_calls (main_loop_cbr e hz idc b n) = [] \<and> cbr_n_tx (main_loop_cbr e hz idc b n) = 0 \<and>
         cbr_pc (main_loop_cbr e hz idc b n) = CPoll \<and> cbr_n_deq (main_loop_cbr e hz idc b n) = n"
proof (induction n)
  case 0
  show ?case by (simp add: main_loop_cbr_def main_loop_cbr_init_def)
next
  case (Suc n)
  with assms show ?case by (simp add: main_loop_cbr_Suc cbr_step_poll Let_def)
qed

lemma main_loop_exit_iff:
  assumes "main_loop_bounds s" "pc s = Inner"
  shows "pc (main_loop_step e s) = Poll \<longleftrightarrow> unat (sent s) = batch_size"
proof (cases "sent s < of_nat batch_size")
  case True
  from unat_lt_batch [OF True] assms(2) True show ?thesis
    by (simp add: main_loop_step_send)
next
  case False
  from unat_ge_batch [OF False] assms have "unat (sent s) = batch_size"
    by (simp add: main_loop_bounds_def)
  with assms(2) False show ?thesis
    by (simp add: main_loop_step_exit)
qed

lemma cbr_exit_iff:
  assumes "cbr_bounds s" "cbr_pc s = CInner"
  shows "cbr_pc (main_loop_cbr_step e s) = CPoll \<longleftrightarrow> unat (cbr_sent s) = batch_size"
proof (cases "cbr_sent s < of_nat batch_size")
  case True
  from unat_lt_batch [OF True] assms(2) True show ?thesis
    by (simp add: cbr_step_guard)
next
  case False
  from unat_ge_batch [OF False] assms have "unat (cbr_sent s) = batch_size"
    by (simp add: cbr_bounds_def)
  with assms(2) False show ?thesis
    by (simp add: cbr_step_guard)
qed

subsection \<open>Progress of the inner loop of \<open>main_loop\<close>\<close>

lemma funpow_main_loop: "main_loop e b (n + j) = (main_loop_step e ^^ j) (main_loop e b n)"
  by (simp add: main_loop_def funpow_add add.commute)

lemma main_loop_gain:
  assumes ok: "sink_ok e"
    and acc: "\<forall>m. 0 < m \<longrightarrow> 0 < rte_eth_tx_burst e (n_tx s + d) m"
    and s: "pc s = Inner" "main_loop_bounds s" "sent s < of_nat batch_size"
  shows "\<exists>j. pc ((main_loop_step e ^^ j) s) = Inner \<and>
             main_loop_bounds ((main_loop_step e ^^ j) s) \<and>
             unat (sent s) < unat (sent ((main_loop_step e ^^ j) s))"
  using acc s
proof (induction d arbitrary: s)
  case 0
  define nb :: "16 word" where "nb = ucast (of_nat batch_size - sent s)"
  define r where "r = rte_eth_tx_burst e (n_tx s) nb"
  have lt: "unat (sent s) < batch_size" by (rule unat_lt_batch [OF "0.prems"(4)])
  have nb: "unat nb = batch_size - unat (sent s)"
    unfolding nb_def by (rule unat_remaining [OF "0.prems"(4)])
  with lt have "0 < nb" by (simp add: word_less_nat_alt)
  with "0.prems"(1) have "0 < r" by (simp add: r_def)
  then have rpos: "0 < unat r" by (simp add: word_less_nat_alt)
  have sent': "unat (sent s + ucast r) = unat (sent s) + unat r"
    using lt by (simp add: unat_sent_add)
  have b: "main_loop_bounds (main_loop_step e s)"
    by (rule main_loop_bounds_step [OF ok "0.prems"(3)])
  have "pc (main_loop_step e s) = Inner \<and> unat (sent s) < unat (sent (main_loop_step e s))"
    using rpos sent' "0.prems"(2)
    by (simp add: main_loop_step_send [OF "0.prems"(2,4)] nb_def [symmetric] r_def [symmetric])
  with b have "pc ((main_loop_step e ^^ 1) s) = Inner \<and>
      main_loop_bounds ((main_loop_step e ^^ 1) s) \<and>
      unat (sent s) < unat (sent ((main_loop_step e ^^ 1) s))"
    by simp
  then show ?case by blast
next
  case (Suc d)
  define nb :: "16 word" where "nb = ucast (of_nat batch_size - sent s)"
  define r where "r = rte_eth_tx_burst e (n_tx s) nb"
  define s1 where "s1 = main_loop_step e s"
  have lt: "unat (sent s) < batch_size" by (rule unat_lt_batch [OF Suc.prems(4)])
  have sent': "unat (sent s + ucast r) = unat (sent s) + unat r"
    using lt by (simp add: unat_sent_add)
  have b: "main_loop_bounds s1"
    unfolding s1_def by (rule main_loop_bounds_step [OF ok Suc.prems(3)])
  have s1: "pc s1 = Inner" "n_tx s1 = Suc (n_tx s)" "sent s1 = sent s + ucast r"
    using Suc.prems(2)
    by (simp_all add: s1_def main_loop_step_send [OF Suc.prems(2,4)] nb_def [symmetric]
        r_def [symmetric])
  show ?case
  proof (cases "r = 0")
    case False
    then have "0 < unat r" by (simp add: unat_gt_0)
    with s1 b sent' have "pc ((main_loop_step e ^^ 1) s) = Inner \<and>
        main_loop_bounds ((main_loop_step e ^^ 1) s) \<and>
        unat (sent s) < unat (sent ((main_loop_step e ^^ 1) s))"
      by (simp add: s1_def)
    then show ?thesis by blast
  next
    case True
    with s1 have same: "sent s1 = sent s" by simp
    from Suc.prems(1) s1 have acc1: "\<forall>m. 0 < m \<longrightarrow> 0 < rte_eth_tx_burst e (n_tx s1 + d) m"
      by simp
    from Suc.IH [OF acc1 s1(1) b] same Suc.prems(4)
    obtain j where j: "pc ((main_loop_step e ^^ j) s1) = Inner"
      "main_loop_bounds ((main_loop_step e ^^ j) s1)"
      "unat (sent s) < unat (sent ((main_loop_step e ^^ j) s1))"
      by auto
    have "(main_loop_step e ^^ j) s1 = (main_loop_step e ^^ Suc j) s"
      by (simp add: s1_def funpow_swap1)
    with j show ?thesis by metis
  qed
qed

lemma main_loop_leaves_inner:
  assumes ok: "sink_ok e"
    and fair: "\<forall>k. \<exists>k' \<ge> k. \<forall>m. 0 < m \<longrightarrow> 0 < rte_eth_tx_burst e k' m"
    and s: "pc s = Inner" "main_loop_bounds s"
  shows "\<exists>j. pc ((main_loop_step e ^^ j) s) = Poll"
  using s
proof (induction "batch_size - unat (sent s)" arbitrary: s rule: less_induct)
  case less
  show ?case
  proof (cases "sent s < of_nat batch_size")
    case False
    with less.prems have "pc ((main_loop_step e ^^ 1) s) = Poll"
      by (simp add: main_loop_step_exit)
    then show ?thesis by blast
  next
    case True
    from fair obtain k' where "n_tx s \<le> k'"
      and a: "\<forall>m. 0 < m \<longrightarrow> 0 < rte_eth_tx_burst e k' m"
      by blast
    then have "\<forall>m. 0 < m \<longrightarrow> 0 < rte_eth_tx_burst e (n_tx s + (k' - n_tx s)) m"
      by simp
    from main_loop_gain [OF ok this less.prems True]
    obtain j where j: "pc ((main_loop_step e ^^ j) s) = Inner"
      "main_loop_bounds ((main_loop_step e ^^ j) s)"
      "unat (sent s) < unat (sent ((main_loop_step e ^^ j) s))"
      by blast
    from j(2) have "unat (sent ((main_loop_step e ^^ j) s)) \<le> batch_size"
      by (simp add: main_loop_bounds_def)
    with j(3) have "batch_size - unat (sent ((main_loop_step e ^^ j) s)) < batch_size - unat (sent s)"
      by simp
    from less.hyps [OF this j(1,2)]
    obtain i where "pc ((main_loop_step e ^^ i) ((main_loop_step e ^^ j) s)) = Poll"
      by blast
    then have "pc ((main_loop_step e ^^ (i + j)) s) = Poll"
      by (simp add: funpow_add)
    then show ?thesis by blast
  qed
qed

subsection \<open>The concrete collaborators\<close>

lemma batch0_length: "length batch0 = batch_size"
  by (simp add: batch0_def batch_size_def)

lemmas cbr_run_simps =
  main_loop_cbr_init_def main_loop_cbr_step_def batch_size_def Let_def


lemma batch0_head: "take (Suc 0) batch0 = [1]"
  by (simp add: batch0_def upt_rec)

lemma word64_sub_wraps:
  "(a :: 64 word) < b \<Longrightarrow> unat (a - b) = 2 ^ 64 - (unat b - unat a)"
proof -
  assume "a < b"
  then have lt: "unat a < unat b" by (simp add: word_less_nat_alt)
  have "unat b < 2 ^ 64"
    using unsigned_less [of b, where ?'a = nat] by simp
  with lt show ?thesis
    by (simp add: unat_sub_if_size word_size)
qed

subsection \<open>The first batch with \<open>env_ahead\<close> and \<open>env_gap\<close>\<close>

lemma of_nat_lt_batch: "j < 64 \<Longrightarrow> (of_nat j :: 32 word) < of_nat batch_size"
  by (simp add: batch_size_def word_less_nat_alt unat_of_nat)

lemma tsc_not_early:
  "j < 64 \<Longrightarrow> \<not> (1000 * of_nat (Suc j) :: 64 word) < 1010 * of_nat j"
proof -
  assume j: "j < 64"
  then have a: "unat (1000 * of_nat (Suc j) :: 64 word) = 1000 * Suc j"
    by (simp add: unat_word_ariths unat_of_nat)
  from j have b: "unat (1010 * of_nat j :: 64 word) = 1010 * j"
    by (simp add: unat_word_ariths unat_of_nat)
  from j show ?thesis
    unfolding word_less_nat_alt a b by simp
qed

lemma first_batch_env_ahead: "first_batch env_ahead"
  by (simp add: first_batch_def env_ahead_def)

lemma first_batch_env_gap: "first_batch env_gap"
  by (simp add: first_batch_def env_gap_def)

lemma paced_shape_packet:
  assumes "first_batch e" "j < 64" "paced_shape j s"
  shows "paced_shape (Suc j)
           (main_loop_cbr_step e (main_loop_cbr_step e (main_loop_cbr_step e s)))"
proof -
  define s1 where "s1 = main_loop_cbr_step e s"
  define s2 where "s2 = main_loop_cbr_step e s1"
  have t: "rte_get_tsc_cycles e (Suc j) = 1000 * of_nat (Suc j)"
    using assms(1,2) by (simp add: first_batch_def)
  have r: "rte_eth_tx_burst e k 1 = 1" for k
    using assms(1) by (simp add: first_batch_def)
  from assms(2,3) have 1: "cbr_pc s1 = CSpin \<and> cbr_sent s1 = of_nat j \<and>
      cbr_n_tsc s1 = Suc j \<and> cbr_n_deq s1 = 1 \<and> next_send s1 = 1010 * of_nat j \<and>
      id_cycles s1 = 1010 \<and> length (cbr_calls s1) = j"
    by (simp add: s1_def paced_shape_def cbr_step_guard of_nat_lt_batch)
  with tsc_not_early [OF assms(2)] have 2: "cbr_pc s2 = CSend \<and> cbr_sent s2 = of_nat j \<and>
      cbr_n_tsc s2 = Suc (Suc j) \<and> cbr_n_deq s2 = 1 \<and> next_send s2 = 1010 * of_nat j \<and>
      id_cycles s2 = 1010 \<and> cur s2 = 1000 * of_nat (Suc j) \<and> length (cbr_calls s2) = j"
    by (simp add: s2_def cbr_step_spin t)
  then have "paced_shape (Suc j) (main_loop_cbr_step e s2)"
    by (simp add: paced_shape_def cbr_step_send r algebra_simps)
  then show ?thesis by (simp add: s1_def s2_def)
qed

lemma paced_shape_run:
  assumes "first_batch e"
  shows "j \<le> 64 \<Longrightarrow> paced_shape j (main_loop_cbr e hz 1010 b (Suc (3 * j)))"
proof (induction j)
  case 0
  from assms show ?case
    by (simp add: main_loop_cbr_def main_loop_cbr_init_def cbr_step_poll paced_shape_def
        Let_def first_batch_def)
next
  case (Suc j)
  then have "paced_shape j (main_loop_cbr e hz 1010 b (Suc (3 * j)))" and "j < 64"
    by simp_all
  from paced_shape_packet [OF assms this(2,1)]
  have "paced_shape (Suc j) (main_loop_cbr e hz 1010 b (Suc (Suc (Suc (Suc (3 * j))))))"
    by (simp only: main_loop_cbr_Suc)
  moreover have "Suc (3 * Suc j) = Suc (Suc (Suc (Suc (3 * j))))" by simp
  ultimately show ?case by (simp only:)
qed

lemma first_batch_done:
  assumes "first_batch e" and "s = main_loop_cbr e hz 1010 b 194"
  shows "cbr_pc s = CPoll \<and> cbr_n_tsc s = 65 \<and> cbr_n_deq s = 1 \<and> next_send s = 64640 \<and>
         tsc_hz s = hz \<and> id_cycles s = 1010 \<and>
         length (cbr_calls s) = 64 \<and> tx_cycle (last (cbr_calls s)) = 64000"
proof -
  have "paced_shape 64 (main_loop_cbr e hz 1010 b (Suc (3 * 64)))"
    by (rule paced_shape_run [OF assms(1)]) simp
  then have p: "paced_shape 64 (main_loop_cbr e hz 1010 b 193)"
    by simp
  have n: "(194 :: nat) = Suc 193" by simp
  have t: "tsc_hz s = hz"
    using cbr_timing_inv_run [of hz 1010 e b 194] by (simp add: cbr_timing_inv_def assms(2))
  from p t show ?thesis
    unfolding assms(2) n main_loop_cbr_Suc
    by (simp add: paced_shape_def cbr_step_guard batch_size_def)
qed

subsection \<open>The run with \<open>env_gap\<close> after the first batch\<close>

lemma gap_run:
  assumes "s0 = main_loop_cbr env_gap 2000000000 1010 [] 194"
    and "s1 = main_loop_cbr_step env_gap s0"
    and "s2 = main_loop_cbr_step env_gap s1"
    and "s5 = main_loop_cbr_step env_gap (main_loop_cbr_step env_gap (main_loop_cbr_step env_gap s2))"
    and "s8 = main_loop_cbr_step env_gap (main_loop_cbr_step env_gap (main_loop_cbr_step env_gap s5))"
  shows "cbr_pc s0 = CPoll \<and> cbr_n_tsc s0 = 65 \<and> cbr_n_deq s0 = 1 \<and> next_send s0 = 64640 \<and>
         tx_cycle (last (cbr_calls s0)) = 64000"
    and "cbr_pc s1 = CPoll \<and> cbr_n_tsc s1 = 66 \<and> cbr_n_deq s1 = 2 \<and> next_send s1 = 30000000"
    and "cbr_pc s2 = CInner \<and> next_send s2 = 30000000 \<and> cur s2 = 45000000 \<and> cbr_sent s2 = 0"
    and "cbr_calls s5 = cbr_calls s0 @ [last (cbr_calls s5)] \<and>
         tx_batch (last (cbr_calls s5)) = 2 \<and> tx_off (last (cbr_calls s5)) = 0 \<and>
         tx_sched (last (cbr_calls s5)) = 30000000 \<and> tx_cycle (last (cbr_calls s5)) = 45000001"
    and "tx_batch (last (cbr_calls s8)) = 2 \<and> tx_off (last (cbr_calls s8)) = 1 \<and>
         tx_sched (last (cbr_calls s8)) = 30001010 \<and> tx_cycle (last (cbr_calls s8)) = 45000002"
proof -
  from first_batch_done [OF first_batch_env_gap assms(1)]
  have 0: "cbr_pc s0 = CPoll" "cbr_n_tsc s0 = 65" "cbr_n_deq s0 = 1" "next_send s0 = 64640"
    "tsc_hz s0 = 2000000000" "id_cycles s0 = 1010" "tx_cycle (last (cbr_calls s0)) = 64000"
    by simp_all
  have 1: "cbr_pc s1 = CPoll" "cbr_n_tsc s1 = 66" "cbr_n_deq s1 = 2" "next_send s1 = 30000000"
    "tsc_hz s1 = 2000000000" "id_cycles s1 = 1010" "cbr_calls s1 = cbr_calls s0"
    using 0 by (simp_all add: assms(2) cbr_step_poll Let_def env_gap_def)
  have 2: "cbr_pc s2 = CInner" "cbr_n_tsc s2 = 67" "cbr_n_deq s2 = 3" "next_send s2 = 30000000"
    "cur s2 = 45000000" "cbr_sent s2 = 0" "id_cycles s2 = 1010" "cbr_calls s2 = cbr_calls s0"
    using 1 by (simp_all add: assms(3) cbr_step_poll Let_def env_gap_def)
  define s3 where "s3 = main_loop_cbr_step env_gap s2"
  define s4 where "s4 = main_loop_cbr_step env_gap s3"
  have 3: "cbr_pc s3 = CSpin" "cbr_n_tsc s3 = 67" "cbr_n_deq s3 = 3" "next_send s3 = 30000000"
    "wait_from s3 = 30000000" "cbr_sent s3 = 0" "id_cycles s3 = 1010" "cbr_calls s3 = cbr_calls s0"
    using 2 by (simp_all add: s3_def cbr_step_guard batch_size_def)
  have 4: "cbr_pc s4 = CSend" "cbr_n_tsc s4 = 68" "cbr_n_deq s4 = 3" "next_send s4 = 30000000"
    "wait_from s4 = 30000000" "cbr_sent s4 = 0" "id_cycles s4 = 1010" "cur s4 = 45000001"
    "cbr_calls s4 = cbr_calls s0"
    using 3 by (simp_all add: s4_def cbr_step_spin env_gap_def)
  have s5: "s5 = main_loop_cbr_step env_gap s4"
    by (simp add: assms(4) s3_def s4_def)
  have 5: "cbr_pc s5 = CInner" "cbr_n_tsc s5 = 68" "cbr_n_deq s5 = 3" "next_send s5 = 30001010"
    "cbr_sent s5 = 1" "id_cycles s5 = 1010"
    "cbr_calls s5 = cbr_calls s0 @ [last (cbr_calls s5)]"
    "tx_batch (last (cbr_calls s5)) = 2" "tx_off (last (cbr_calls s5)) = 0"
    "tx_sched (last (cbr_calls s5)) = 30000000" "tx_cycle (last (cbr_calls s5)) = 45000001"
    using 4 by (simp_all add: s5 cbr_step_send env_gap_def)
  define s6 where "s6 = main_loop_cbr_step env_gap s5"
  define s7 where "s7 = main_loop_cbr_step env_gap s6"
  have 6: "cbr_pc s6 = CSpin" "cbr_n_tsc s6 = 68" "cbr_n_deq s6 = 3" "next_send s6 = 30001010"
    "wait_from s6 = 30001010" "cbr_sent s6 = 1" "id_cycles s6 = 1010"
    using 5 by (simp_all add: s6_def cbr_step_guard batch_size_def)
  have 7: "cbr_pc s7 = CSend" "cbr_n_deq s7 = 3" "next_send s7 = 30001010"
    "wait_from s7 = 30001010" "cbr_sent s7 = 1" "id_cycles s7 = 1010" "cur s7 = 45000002"
    using 6 by (simp_all add: s7_def cbr_step_spin env_gap_def)
  have s8: "s8 = main_loop_cbr_step env_gap s7"
    by (simp add: assms(5) s6_def s7_def)
  have 8: "tx_batch (last (cbr_calls s8)) = 2" "tx_off (last (cbr_calls s8)) = 1"
    "tx_sched (last (cbr_calls s8)) = 30001010" "tx_cycle (last (cbr_calls s8)) = 45000002"
    using 7 by (simp_all add: s8 cbr_step_send env_gap_def)
  from 0 show "cbr_pc s0 = CPoll \<and> cbr_n_tsc s0 = 65 \<and> cbr_n_deq s0 = 1 \<and> next_send s0 = 64640 \<and>
         tx_cycle (last (cbr_calls s0)) = 64000" by simp
  from 1 show "cbr_pc s1 = CPoll \<and> cbr_n_tsc s1 = 66 \<and> cbr_n_deq s1 = 2 \<and> next_send s1 = 30000000"
    by simp
  from 2 show "cbr_pc s2 = CInner \<and> next_send s2 = 30000000 \<and> cur s2 = 45000000 \<and> cbr_sent s2 = 0"
    by simp
  from 5 show "cbr_calls s5 = cbr_calls s0 @ [last (cbr_calls s5)] \<and>
         tx_batch (last (cbr_calls s5)) = 2 \<and> tx_off (last (cbr_calls s5)) = 0 \<and>
         tx_sched (last (cbr_calls s5)) = 30000000 \<and> tx_cycle (last (cbr_calls s5)) = 45000001"
    by simp
  from 8 show "tx_batch (last (cbr_calls s8)) = 2 \<and> tx_off (last (cbr_calls s8)) = 1 \<and>
         tx_sched (last (cbr_calls s8)) = 30001010 \<and> tx_cycle (last (cbr_calls s8)) = 45000002"
    by simp
qed

lemma gap_run_steps:
  "main_loop_cbr env_gap hz idc b 195 = main_loop_cbr_step env_gap (main_loop_cbr env_gap hz idc b 194)"
  "main_loop_cbr env_gap hz idc b 196 =
     main_loop_cbr_step env_gap (main_loop_cbr env_gap hz idc b 195)"
  "main_loop_cbr env_gap hz idc b 199 =
     main_loop_cbr_step env_gap (main_loop_cbr_step env_gap (main_loop_cbr_step env_gap
       (main_loop_cbr env_gap hz idc b 196)))"
  "main_loop_cbr env_gap hz idc b 202 =
     main_loop_cbr_step env_gap (main_loop_cbr_step env_gap (main_loop_cbr_step env_gap
       (main_loop_cbr env_gap hz idc b 199)))"
proof -
  have n: "(195 :: nat) = Suc 194" "(196 :: nat) = Suc 195" "(199 :: nat) = Suc (Suc (Suc 196))"
    "(202 :: nat) = Suc (Suc (Suc 199))"
    by simp_all
  show "main_loop_cbr env_gap hz idc b 195 = main_loop_cbr_step env_gap (main_loop_cbr env_gap hz idc b 194)"
    by (simp only: n(1) main_loop_cbr_Suc)
  show "main_loop_cbr env_gap hz idc b 196 =
     main_loop_cbr_step env_gap (main_loop_cbr env_gap hz idc b 195)"
    by (simp only: n(2) main_loop_cbr_Suc)
  show "main_loop_cbr env_gap hz idc b 199 =
     main_loop_cbr_step env_gap (main_loop_cbr_step env_gap (main_loop_cbr_step env_gap
       (main_loop_cbr env_gap hz idc b 196)))"
    by (simp only: n(3) main_loop_cbr_Suc)
  show "main_loop_cbr env_gap hz idc b 202 =
     main_loop_cbr_step env_gap (main_loop_cbr_step env_gap (main_loop_cbr_step env_gap
       (main_loop_cbr env_gap hz idc b 199)))"
    by (simp only: n(4) main_loop_cbr_Suc)
qed

section \<open>The claims\<close>

text \<open>
  Claim C1, as amended. The interval \<open>id_cycles\<close> is computed once, at the start of
  \<open>main_loop_cbr\<close>, as the integer part of the double quotient
  \<open>target / (10\<^sup>9 / tsc_hz)\<close>, where \<open>target\<close> is the time per packet in nanoseconds:
  it is \<open>\<lfloor>r\<rfloor>\<close> for a double \<open>r\<close> within the relative error \<open>2\<^sup>-\<^sup>5\<^sup>1\<close> of
  \<open>x = target \<cdot> tsc_hz / 10\<^sup>9\<close> cycles, the conversion is defined whenever
  \<open>x \<cdot> (1 + 2\<^sup>-\<^sup>5\<^sup>1) < 2\<^sup>6\<^sup>4\<close>, and the value stays the same for the whole run. It is
  not the counter frequency divided by a rate in packets per second.
\<close>

theorem id_cycles_is_target_times_frequency:
  assumes "x = (of_nat (unat target) * of_nat (unat hz) / 1000000000 :: rat)"
  shows "(x * (1 + 1 / 2 ^ 51) < 2 ^ 64 \<longrightarrow> (\<exists>c. id_cycles_of target hz = Some c)) \<and>
         (\<forall>c. id_cycles_of target hz = Some c \<longrightarrow>
              x * (1 - 1 / 2 ^ 51) - 1 < of_nat (unat c) \<and>
              of_nat (unat c) \<le> x * (1 + 1 / 2 ^ 51) \<and>
              main_loop_cbr_start target hz b = Some (main_loop_cbr_init hz c b) \<and>
              id_cycles (main_loop_cbr e hz c b n) = c)"
proof -
  have run: "id_cycles (main_loop_cbr e hz c b n) = c" for c
    using cbr_timing_inv_run [of hz c e b n] by (simp add: cbr_timing_inv_def)
  have start: "main_loop_cbr_start target hz b = Some (main_loop_cbr_init hz c b)"
    if "id_cycles_of target hz = Some c" for c
    using that by (simp add: main_loop_cbr_start_def)
  consider "hz = 0" | "hz \<noteq> 0" "target = 0" | "hz \<noteq> 0" "target \<noteq> 0" by blast
  then have "(x * (1 + 1 / 2 ^ 51) < 2 ^ 64 \<longrightarrow> (\<exists>c. id_cycles_of target hz = Some c)) \<and>
         (\<forall>c. id_cycles_of target hz = Some c \<longrightarrow>
              x * (1 - 1 / 2 ^ 51) - 1 < of_nat (unat c) \<and>
              of_nat (unat c) \<le> x * (1 + 1 / 2 ^ 51))"
  proof cases
    case 1
    then show ?thesis by (simp add: id_cycles_of_zero_hz assms)
  next
    case 2
    then show ?thesis by (simp add: id_cycles_of_zero_target assms)
  next
    case 3
    then have h: "0 < unat hz" and t: "0 < unat target" by (simp_all add: unat_gt_0)
    from id_cycles_quotient [OF h unat_64_bound t unat_32_bound]
    obtain r where r: "fdiv (to_double (unat target))
          (fdiv (Finite 1000000000) (to_double (unat hz))) = Finite r"
      and lo: "x * (1 - 1 / 2 ^ 51) \<le> r" and hi: "r \<le> x * (1 + 1 / 2 ^ 51)"
      unfolding assms by blast
    have "0 \<le> x" unfolding assms
      by (intro divide_nonneg_nonneg mult_nonneg_nonneg of_nat_0_le_iff) simp
    then have "0 \<le> x * (1 - 1 / 2 ^ 51)" by (intro mult_nonneg_nonneg) simp_all
    with lo have r0: "0 \<le> r" by linarith
    have eq: "id_cycles_of target hz = to_uint64 (Finite r)"
      by (simp add: id_cycles_of_def r)
    note u = to_uint64_finite [OF r0]
    have "\<exists>c. id_cycles_of target hz = Some c" if "x * (1 + 1 / 2 ^ 51) < 2 ^ 64"
    proof -
      from that hi have "r < 2 ^ 64" by linarith
      with u show ?thesis by (simp add: eq)
    qed
    moreover have "x * (1 - 1 / 2 ^ 51) - 1 < of_nat (unat c) \<and>
        of_nat (unat c) \<le> x * (1 + 1 / 2 ^ 51)" if "id_cycles_of target hz = Some c" for c
    proof -
      from that u have "r - 1 < of_nat (unat c)" "of_nat (unat c) \<le> r"
        by (simp_all add: eq)
      with lo hi show ?thesis by linarith
    qed
    ultimately show ?thesis by blast
  qed
  with run start show ?thesis by blast
qed

theorem id_cycles_is_target_times_frequency_witness:
  "(of_nat (unat (1000 :: 32 word)) * of_nat (unat (2000000000 :: 64 word)) / 1000000000 :: rat)
     * (1 + 1 / 2 ^ 51) < 2 ^ 64 \<and>
   id_cycles_of 1000 2000000000 = Some 2000 \<and>
   (2000 :: rat) * (1 - 1 / 2 ^ 51) - 1 < of_nat (unat (2000 :: 64 word)) \<and>
   of_nat (unat (2000 :: 64 word)) \<le> (2000 :: rat) * (1 + 1 / 2 ^ 51) \<and>
   id_cycles (main_loop_cbr env_paced 2000000000 2000 [] 5) = 2000"
proof -
  have v: "id_cycles_of 1000 2000000000 = Some 2000"
    by (simp add: id_cycles_of_def to_double_def round64_def exponent_def floor_log2.simps
        pow2_def round_even_def Let_def to_uint64_def)
  have x: "(of_nat (unat (1000 :: 32 word)) * of_nat (unat (2000000000 :: 64 word))
      / 1000000000 :: rat) = 2000"
    by simp
  have h: "(of_nat (unat (1000 :: 32 word)) * of_nat (unat (2000000000 :: 64 word))
      / 1000000000 :: rat) * (1 + 1 / 2 ^ 51) < 2 ^ 64"
    by simp
  from id_cycles_is_target_times_frequency [OF x [symmetric], of "[]" env_paced 5] v h
  show ?thesis by simp
qed

text \<open>
  With \<open>target = 1000\<close> and a counter of 2 GHz the code computes 2000 cycles, where the
  counter frequency divided by a rate of 1000 packets per second is 2000000.
\<close>

theorem interval_is_not_frequency_over_rate_counterexample:
  "id_cycles_of 1000 2000000000 = Some 2000 \<and>
   spec_interval_cycles 2000000000 1000 = 2000000 \<and>
   id_cycles_of 1000 2000000000 \<noteq> Some (of_nat (spec_interval_cycles 2000000000 1000))"
  by (simp add: id_cycles_of_def to_double_def round64_def exponent_def floor_log2.simps
      pow2_def round_even_def Let_def to_uint64_def spec_interval_cycles_def)

text \<open>
  Claim C2. In \<open>main_loop\<close>, with a device that never accepts more than it is offered
  and a ring whose successful dequeue fills the array: every transmit call offers
  exactly the unsent suffix of the batch it belongs to, the device having taken over,
  before that call, all earlier batches and the first \<open>tx_off\<close> handles of this one;
  so the handles accepted are always the dequeued batches in their order followed by
  a prefix of the current batch, each handle once. The inner loop is left only with
  \<open>sent = batch_size\<close>, and then the whole batch has been accepted. Whatever
  counts the device returns, if it accepts something again and again, the inner loop is
  left.
\<close>

theorem drain_transmits_batch_in_order:
  assumes "sink_ok e" and "ring_ok e" and "s = main_loop e b n"
  shows "(\<forall>i < length (calls s).
            fst (ring_dequeue e (tx_batch (calls s ! i))) = 0 \<and>
            sunk (take i (calls s)) =
              dequeued e (tx_batch (calls s ! i)) @
              take (unat (tx_off (calls s ! i))) (snd (ring_dequeue e (tx_batch (calls s ! i)))) \<and>
            tx_pkts (calls s ! i) =
              drop (unat (tx_off (calls s ! i))) (snd (ring_dequeue e (tx_batch (calls s ! i))))) \<and>
         (pc s = Inner \<longrightarrow>
            fst (ring_dequeue e (n_deq s - 1)) = 0 \<and>
            bufs s = snd (ring_dequeue e (n_deq s - 1)) \<and>
            sunk (calls s) = dequeued e (n_deq s - 1) @ take (unat (sent s)) (bufs s)) \<and>
         (pc s = Inner \<and> pc (main_loop e b (Suc n)) = Poll \<longrightarrow> unat (sent s) = batch_size) \<and>
         (pc s = Poll \<longrightarrow> sunk (calls s) = dequeued e (n_deq s)) \<and>
         (pc s = Inner \<and> (\<forall>k. \<exists>k' \<ge> k. \<forall>m. 0 < m \<longrightarrow> 0 < rte_eth_tx_burst e k' m) \<longrightarrow>
            (\<exists>j. pc (main_loop e b (n + j)) = Poll))"
proof -
  have inv: "main_loop_inv e s"
    unfolding assms(3) by (rule main_loop_inv_run [OF assms(1,2)])
  have bnd: "main_loop_bounds s"
    unfolding assms(3) by (rule main_loop_bounds_run [OF assms(1)])
  have 1: "fst (ring_dequeue e (tx_batch (calls s ! i))) = 0 \<and>
            sunk (take i (calls s)) =
              dequeued e (tx_batch (calls s ! i)) @
              take (unat (tx_off (calls s ! i))) (snd (ring_dequeue e (tx_batch (calls s ! i)))) \<and>
            tx_pkts (calls s ! i) =
              drop (unat (tx_off (calls s ! i))) (snd (ring_dequeue e (tx_batch (calls s ! i))))"
    if i: "i < length (calls s)" for i
  proof -
    define c where "c = calls s ! i"
    from i have mem: "c \<in> set (calls s)" by (simp add: c_def)
    with inv have ok: "call_ok e c" by (simp add: main_loop_inv_def)
    from mem bnd have nb: "unat (tx_nb c) = batch_size - unat (tx_off c)"
      by (simp add: main_loop_bounds_def)
    from ok have rc: "fst (ring_dequeue e (tx_batch c)) = 0" by (simp add: call_ok_def)
    with assms(2) have len: "length (snd (ring_dequeue e (tx_batch c))) = batch_size"
      by (simp add: ring_ok_def)
    from ok nb len have "tx_pkts c = drop (unat (tx_off c)) (snd (ring_dequeue e (tx_batch c)))"
      by (simp add: call_ok_def)
    moreover from inv i have "sunk (take i (calls s)) =
        dequeued e (tx_batch c) @ take (unat (tx_off c)) (snd (ring_dequeue e (tx_batch c)))"
      by (simp add: main_loop_inv_def prefix_ok_def c_def)
    ultimately show ?thesis using rc by (simp add: c_def)
  qed
  from inv have 2: "pc s = Inner \<longrightarrow>
            fst (ring_dequeue e (n_deq s - 1)) = 0 \<and>
            bufs s = snd (ring_dequeue e (n_deq s - 1)) \<and>
            sunk (calls s) = dequeued e (n_deq s - 1) @ take (unat (sent s)) (bufs s)"
    by (auto simp: main_loop_inv_def)
  have 3: "pc s = Inner \<and> pc (main_loop e b (Suc n)) = Poll \<longrightarrow> unat (sent s) = batch_size"
    using main_loop_exit_iff [OF bnd, of e] by (auto simp: main_loop_Suc assms(3))
  from inv have 4: "pc s = Poll \<longrightarrow> sunk (calls s) = dequeued e (n_deq s)"
    by (auto simp: main_loop_inv_def)
  have 5: "pc s = Inner \<and> (\<forall>k. \<exists>k' \<ge> k. \<forall>m. 0 < m \<longrightarrow> 0 < rte_eth_tx_burst e k' m) \<longrightarrow>
            (\<exists>j. pc (main_loop e b (n + j)) = Poll)"
    using main_loop_leaves_inner [OF assms(1) _ _ bnd]
    by (simp add: funpow_main_loop assms(3) [symmetric])
  from 1 2 3 4 5 show ?thesis by blast
qed

theorem drain_transmits_batch_in_order_witness:
  "sink_ok env_burst \<and> ring_ok env_burst \<and>
   (\<forall>k. \<exists>k' \<ge> k. \<forall>m. 0 < m \<longrightarrow> 0 < rte_eth_tx_burst env_burst k' m) \<and>
   pc (main_loop env_burst [] 4) = Inner \<and>
   1 < length (calls (main_loop env_burst [] 4)) \<and>
   tx_pkts (calls (main_loop env_burst [] 4) ! 1) = batch0 \<and>
   sunk (calls (main_loop env_burst [] 4)) = take 24 batch0 \<and>
   (\<exists>j. pc (main_loop env_burst [] (4 + j)) = Poll) \<and>
   pc (main_loop env_burst [] 6) = Inner \<and>
   pc (main_loop env_burst [] (Suc 6)) = Poll \<and>
   unat (sent (main_loop env_burst [] 6)) = batch_size \<and>
   sunk (calls (main_loop env_burst [] (Suc 6))) = batch0"
proof -
  have h1: "sink_ok env_burst"
    by (simp add: sink_ok_def env_burst_def)
  have h2: "ring_ok env_burst"
    by (simp add: ring_ok_def env_burst_def batch0_length)
  have h3: "\<forall>k. \<exists>k' \<ge> k. \<forall>m. 0 < m \<longrightarrow> 0 < rte_eth_tx_burst env_burst k' m"
  proof
    fix k
    have "Suc k \<ge> k \<and> (\<forall>m. 0 < m \<longrightarrow> 0 < rte_eth_tx_burst env_burst (Suc k) m)"
      by (simp add: env_burst_def)
    then show "\<exists>k' \<ge> k. \<forall>m. 0 < m \<longrightarrow> 0 < rte_eth_tx_burst env_burst k' m" by blast
  qed
  have e4: "pc (main_loop env_burst [] 4) = Inner \<and>
      1 < length (calls (main_loop env_burst [] 4)) \<and>
      n_deq (main_loop env_burst [] 4) = 2 \<and>
      tx_batch (calls (main_loop env_burst [] 4) ! 1) = 1 \<and>
      tx_off (calls (main_loop env_burst [] 4) ! 1) = 0 \<and>
      sent (main_loop env_burst [] 4) = 24"
    apply (simp add: main_loop_def eval_nat_numeral)
    apply (simp add: main_loop_init_def main_loop_step_def env_burst_def batch_size_def Let_def)
    done
  have e6: "pc (main_loop env_burst [] 6) = Inner \<and> pc (main_loop env_burst [] (Suc 6)) = Poll \<and>
      n_deq (main_loop env_burst [] (Suc 6)) = 2"
    apply (simp add: main_loop_def eval_nat_numeral)
    apply (simp add: main_loop_init_def main_loop_step_def env_burst_def batch_size_def Let_def)
    done
  have d: "dequeued env_burst 2 = batch0" "dequeued env_burst (Suc 0) = []"
    by (simp_all add: dequeued_def env_burst_def eval_nat_numeral)
  have r1: "ring_dequeue env_burst (Suc 0) = (0, batch0)"
    by (simp add: env_burst_def)
  note a = drain_transmits_batch_in_order [OF h1 h2 refl, of "[]" 4]
  note b = drain_transmits_batch_in_order [OF h1 h2 refl, of "[]" 6]
  note c = drain_transmits_batch_in_order [OF h1 h2 refl, of "[]" "Suc 6"]
  from a e4 h3 have "\<exists>j. pc (main_loop env_burst [] (4 + j)) = Poll" by blast
  moreover from a e4 have "tx_pkts (calls (main_loop env_burst [] 4) ! 1) = batch0"
    by (simp add: r1)
  moreover from a e4 have "sunk (calls (main_loop env_burst [] 4)) = take 24 batch0"
    by (simp add: r1 d)
  moreover from b e6 have "unat (sent (main_loop env_burst [] 6)) = batch_size" by blast
  moreover from c e6 have "sunk (calls (main_loop env_burst [] (Suc 6))) = batch0"
    by (simp add: d)
  ultimately show ?thesis using h1 h2 h3 e4 e6 by blast
qed




text \<open>
  Claim C4, as amended. In \<open>main_loop_cbr\<close> a transmit call that returns 0 leaves
  \<open>sent\<close> as it was, so the next transmit call offers the same handle of the same
  batch again, scheduled one interval (\<open>id_cycles\<close>) later; and while the last call
  made has returned 0, the loop is still inside the inner loop with that handle next.
  No handle is skipped: with a device that accepts at most what it is offered and a
  ring that fills the array, the handles accepted are the dequeued batches in order
  followed by a prefix of the current batch.
\<close>

theorem rejected_packet_is_offered_again:
  assumes "s = main_loop_cbr e hz idc b n"
  shows "(\<forall>i. Suc i < length (cbr_calls s) \<and> tx_ret (cbr_calls s ! i) = 0 \<longrightarrow>
            tx_batch (cbr_calls s ! Suc i) = tx_batch (cbr_calls s ! i) \<and>
            tx_off (cbr_calls s ! Suc i) = tx_off (cbr_calls s ! i) \<and>
            tx_pkts (cbr_calls s ! Suc i) = tx_pkts (cbr_calls s ! i) \<and>
            tx_sched (cbr_calls s ! Suc i) = tx_sched (cbr_calls s ! i) + idc) \<and>
         (cbr_calls s \<noteq> [] \<and> tx_ret (last (cbr_calls s)) = 0 \<longrightarrow>
            cbr_pc s \<noteq> CPoll \<and> cbr_sent s < of_nat batch_size \<and>
            cbr_sent s = tx_off (last (cbr_calls s)) \<and>
            take 1 (drop (unat (cbr_sent s)) (cbr_bufs s)) = tx_pkts (last (cbr_calls s))) \<and>
         (sink_ok e \<and> ring_ok e \<longrightarrow>
            (\<forall>i < length (cbr_calls s).
               sunk (take i (cbr_calls s)) =
                 dequeued e (tx_batch (cbr_calls s ! i)) @
                 take (unat (tx_off (cbr_calls s ! i)))
                   (snd (ring_dequeue e (tx_batch (cbr_calls s ! i)))) \<and>
               tx_pkts (cbr_calls s ! i) =
                 take 1 (drop (unat (tx_off (cbr_calls s ! i)))
                   (snd (ring_dequeue e (tx_batch (cbr_calls s ! i)))))) \<and>
            (cbr_pc s = CPoll \<longrightarrow> sunk (cbr_calls s) = dequeued e (cbr_n_deq s)) \<and>
            (cbr_pc s \<noteq> CPoll \<longrightarrow>
               cbr_bufs s = snd (ring_dequeue e (cbr_n_deq s - 1)) \<and>
               sunk (cbr_calls s) =
                 dequeued e (cbr_n_deq s - 1) @ take (unat (cbr_sent s)) (cbr_bufs s)))"
proof -
  have q: "cbr_seq_inv idc s"
    unfolding assms(1) by (rule cbr_seq_inv_run)
  have t: "cbr_timing_inv hz idc s"
    unfolding assms(1) by (rule cbr_timing_inv_run)
  from q have 1: "\<forall>i. Suc i < length (cbr_calls s) \<and> tx_ret (cbr_calls s ! i) = 0 \<longrightarrow>
            tx_batch (cbr_calls s ! Suc i) = tx_batch (cbr_calls s ! i) \<and>
            tx_off (cbr_calls s ! Suc i) = tx_off (cbr_calls s ! i) \<and>
            tx_pkts (cbr_calls s ! Suc i) = tx_pkts (cbr_calls s ! i) \<and>
            tx_sched (cbr_calls s ! Suc i) = tx_sched (cbr_calls s ! i) + idc"
    by (simp add: cbr_seq_inv_def follows_def)
  from q have 2: "cbr_calls s \<noteq> [] \<and> tx_ret (last (cbr_calls s)) = 0 \<longrightarrow>
            cbr_pc s \<noteq> CPoll \<and> cbr_sent s < of_nat batch_size \<and>
            cbr_sent s = tx_off (last (cbr_calls s)) \<and>
            take 1 (drop (unat (cbr_sent s)) (cbr_bufs s)) = tx_pkts (last (cbr_calls s))"
    by (simp add: cbr_seq_inv_def tail_ok_def)
  have 3: "(\<forall>i < length (cbr_calls s).
               sunk (take i (cbr_calls s)) =
                 dequeued e (tx_batch (cbr_calls s ! i)) @
                 take (unat (tx_off (cbr_calls s ! i)))
                   (snd (ring_dequeue e (tx_batch (cbr_calls s ! i)))) \<and>
               tx_pkts (cbr_calls s ! i) =
                 take 1 (drop (unat (tx_off (cbr_calls s ! i)))
                   (snd (ring_dequeue e (tx_batch (cbr_calls s ! i)))))) \<and>
            (cbr_pc s = CPoll \<longrightarrow> sunk (cbr_calls s) = dequeued e (cbr_n_deq s)) \<and>
            (cbr_pc s \<noteq> CPoll \<longrightarrow>
               cbr_bufs s = snd (ring_dequeue e (cbr_n_deq s - 1)) \<and>
               sunk (cbr_calls s) =
                 dequeued e (cbr_n_deq s - 1) @ take (unat (cbr_sent s)) (cbr_bufs s))"
    if ok: "sink_ok e" "ring_ok e"
  proof -
    have inv: "cbr_inv e s"
      unfolding assms(1) by (rule cbr_inv_run [OF ok])
    have "sunk (take i (cbr_calls s)) =
                 dequeued e (tx_batch (cbr_calls s ! i)) @
                 take (unat (tx_off (cbr_calls s ! i)))
                   (snd (ring_dequeue e (tx_batch (cbr_calls s ! i)))) \<and>
               tx_pkts (cbr_calls s ! i) =
                 take 1 (drop (unat (tx_off (cbr_calls s ! i)))
                   (snd (ring_dequeue e (tx_batch (cbr_calls s ! i)))))"
      if i: "i < length (cbr_calls s)" for i
    proof -
      from i have mem: "cbr_calls s ! i \<in> set (cbr_calls s)" by simp
      with inv have "call_ok e (cbr_calls s ! i)" by (simp add: cbr_inv_def)
      moreover from mem t have "tx_nb (cbr_calls s ! i) = 1" by (simp add: cbr_timing_inv_def)
      ultimately have "tx_pkts (cbr_calls s ! i) =
                 take 1 (drop (unat (tx_off (cbr_calls s ! i)))
                   (snd (ring_dequeue e (tx_batch (cbr_calls s ! i)))))"
        by (simp add: call_ok_def)
      moreover from inv i have "sunk (take i (cbr_calls s)) =
                 dequeued e (tx_batch (cbr_calls s ! i)) @
                 take (unat (tx_off (cbr_calls s ! i)))
                   (snd (ring_dequeue e (tx_batch (cbr_calls s ! i))))"
        by (simp add: cbr_inv_def prefix_ok_def)
      ultimately show ?thesis by simp
    qed
    moreover from inv have "cbr_pc s = CPoll \<longrightarrow> sunk (cbr_calls s) = dequeued e (cbr_n_deq s)"
      by (simp add: cbr_inv_def)
    moreover from inv have "cbr_pc s \<noteq> CPoll \<longrightarrow>
               cbr_bufs s = snd (ring_dequeue e (cbr_n_deq s - 1)) \<and>
               sunk (cbr_calls s) =
                 dequeued e (cbr_n_deq s - 1) @ take (unat (cbr_sent s)) (cbr_bufs s)"
      by (auto simp: cbr_inv_def in_batch_def)
    ultimately show ?thesis by blast
  qed
  from 1 2 3 show ?thesis by blast
qed

theorem rejected_packet_is_offered_again_witness:
  "sink_ok env_paced \<and> ring_ok env_paced \<and>
   Suc 0 < length (cbr_calls (main_loop_cbr env_paced 2000 30 [] 7)) \<and>
   tx_ret (cbr_calls (main_loop_cbr env_paced 2000 30 [] 7) ! 0) = 0 \<and>
   tx_pkts (cbr_calls (main_loop_cbr env_paced 2000 30 [] 7) ! Suc 0) =
     tx_pkts (cbr_calls (main_loop_cbr env_paced 2000 30 [] 7) ! 0) \<and>
   tx_sched (cbr_calls (main_loop_cbr env_paced 2000 30 [] 7) ! Suc 0) =
     tx_sched (cbr_calls (main_loop_cbr env_paced 2000 30 [] 7) ! 0) + 30 \<and>
   cbr_calls (main_loop_cbr env_paced 2000 30 [] 4) \<noteq> [] \<and>
   tx_ret (last (cbr_calls (main_loop_cbr env_paced 2000 30 [] 4))) = 0 \<and>
   cbr_sent (main_loop_cbr env_paced 2000 30 [] 4) =
     tx_off (last (cbr_calls (main_loop_cbr env_paced 2000 30 [] 4))) \<and>
   cbr_pc (main_loop_cbr env_paced 2000 30 [] 7) \<noteq> CPoll \<and>
   sunk (cbr_calls (main_loop_cbr env_paced 2000 30 [] 7)) = take 1 batch0"
proof -
  have h1: "sink_ok env_paced"
    by (simp add: sink_ok_def env_paced_def)
  have h2: "ring_ok env_paced"
    by (simp add: ring_ok_def env_paced_def batch0_length)
  have e7: "Suc 0 < length (cbr_calls (main_loop_cbr env_paced 2000 30 [] 7)) \<and>
      tx_ret (cbr_calls (main_loop_cbr env_paced 2000 30 [] 7) ! 0) = 0 \<and>
      cbr_pc (main_loop_cbr env_paced 2000 30 [] 7) \<noteq> CPoll \<and>
      cbr_n_deq (main_loop_cbr env_paced 2000 30 [] 7) = 1 \<and>
      cbr_sent (main_loop_cbr env_paced 2000 30 [] 7) = 1"
    apply (simp add: main_loop_cbr_def eval_nat_numeral)
    apply (simp add: cbr_run_simps env_paced_def)
    done
  have e4: "cbr_calls (main_loop_cbr env_paced 2000 30 [] 4) \<noteq> [] \<and>
      tx_ret (last (cbr_calls (main_loop_cbr env_paced 2000 30 [] 4))) = 0"
    apply (simp add: main_loop_cbr_def eval_nat_numeral)
    apply (simp add: cbr_run_simps env_paced_def)
    done
  have d: "dequeued env_paced 0 = []" "snd (ring_dequeue env_paced 0) = batch0"
    by (simp_all add: dequeued_def env_paced_def)
  note a = rejected_packet_is_offered_again [OF refl, of env_paced 2000 30 "[]" 7]
  note b = rejected_packet_is_offered_again [OF refl, of env_paced 2000 30 "[]" 4]
  from a e7 have "tx_pkts (cbr_calls (main_loop_cbr env_paced 2000 30 [] 7) ! Suc 0) =
     tx_pkts (cbr_calls (main_loop_cbr env_paced 2000 30 [] 7) ! 0) \<and>
   tx_sched (cbr_calls (main_loop_cbr env_paced 2000 30 [] 7) ! Suc 0) =
     tx_sched (cbr_calls (main_loop_cbr env_paced 2000 30 [] 7) ! 0) + 30"
    by blast
  moreover from b e4 have "cbr_sent (main_loop_cbr env_paced 2000 30 [] 4) =
     tx_off (last (cbr_calls (main_loop_cbr env_paced 2000 30 [] 4)))"
    by blast
  moreover from a h1 h2 e7 have "sunk (cbr_calls (main_loop_cbr env_paced 2000 30 [] 7)) =
      dequeued env_paced (cbr_n_deq (main_loop_cbr env_paced 2000 30 [] 7) - 1) @
      take (unat (cbr_sent (main_loop_cbr env_paced 2000 30 [] 7)))
        (snd (ring_dequeue env_paced (cbr_n_deq (main_loop_cbr env_paced 2000 30 [] 7) - 1)))"
    by metis
  with e7 have "sunk (cbr_calls (main_loop_cbr env_paced 2000 30 [] 7)) = take 1 batch0"
    by (simp add: d)
  ultimately show ?thesis using h1 h2 e7 e4 by blast
qed

text \<open>
  The claim as it was stated, that a rejected handle is never offered again and is lost,
  fails on the run where the device rejects the first call: the second call offers the
  same handle, and the device accepts it.
\<close>

theorem rejected_packet_lost_counterexample:
  "tx_ret (cbr_calls (main_loop_cbr env_paced 2000 30 [] 7) ! 0) = 0 \<and>
   tx_pkts (cbr_calls (main_loop_cbr env_paced 2000 30 [] 7) ! 0) = [1] \<and>
   tx_pkts (cbr_calls (main_loop_cbr env_paced 2000 30 [] 7) ! 1) = [1] \<and>
   tx_ret (cbr_calls (main_loop_cbr env_paced 2000 30 [] 7) ! 1) = 1 \<and>
   sunk (cbr_calls (main_loop_cbr env_paced 2000 30 [] 7)) = [1]"
  apply (simp add: main_loop_cbr_def eval_nat_numeral)
  apply (simp add: cbr_run_simps env_paced_def sunk_def tx_accepted_def batch0_head)
  done

text \<open>
  Claim C5. \<open>main_loop_cbr\<close> never calls \<open>rte_eth_tx_burst\<close> before the scheduled cycle:
  for every transmit call, the last value of the cycle counter read before the call
  (\<open>tx_cycle\<close>) is at least the value \<open>next_send\<close> had when the wait for that packet
  began (\<open>tx_sched\<close>); the comparison is the unsigned one of the busy-wait.
\<close>

theorem cbr_never_before_schedule:
  assumes "s = main_loop_cbr e hz idc b n"
  shows "(\<forall>c \<in> set (cbr_calls s). tx_sched c \<le> tx_cycle c) \<and>
         (cbr_pc s = CSend \<longrightarrow> wait_from s = next_send s \<and> next_send s \<le> cur s)"
  using cbr_timing_inv_run [of hz idc e b n]
  by (simp add: cbr_timing_inv_def assms)

theorem cbr_never_before_schedule_witness:
  "cbr_pc (main_loop_cbr env_paced 2000000000 2000 [] 3) = CSend \<and>
   next_send (main_loop_cbr env_paced 2000000000 2000 [] 3) = 0 \<and>
   cur (main_loop_cbr env_paced 2000000000 2000 [] 3) = 2000 \<and>
   hd (cbr_calls (main_loop_cbr env_paced 2000000000 2000 [] 4))
     \<in> set (cbr_calls (main_loop_cbr env_paced 2000000000 2000 [] 4)) \<and>
   tx_sched (hd (cbr_calls (main_loop_cbr env_paced 2000000000 2000 [] 4)))
     \<le> tx_cycle (hd (cbr_calls (main_loop_cbr env_paced 2000000000 2000 [] 4)))"
proof -
  have e3: "cbr_pc (main_loop_cbr env_paced 2000000000 2000 [] 3) = CSend \<and>
      next_send (main_loop_cbr env_paced 2000000000 2000 [] 3) = 0 \<and>
      cur (main_loop_cbr env_paced 2000000000 2000 [] 3) = 2000"
    apply (simp add: main_loop_cbr_def eval_nat_numeral)
    apply (simp add: cbr_run_simps env_paced_def)
    done
  have e4: "cbr_calls (main_loop_cbr env_paced 2000000000 2000 [] 4) \<noteq> []"
    apply (simp add: main_loop_cbr_def eval_nat_numeral)
    apply (simp add: cbr_run_simps env_paced_def)
    done
  then have m: "hd (cbr_calls (main_loop_cbr env_paced 2000000000 2000 [] 4))
     \<in> set (cbr_calls (main_loop_cbr env_paced 2000000000 2000 [] 4))"
    by simp
  from cbr_never_before_schedule [OF refl, of env_paced 2000000000 2000 "[]" 4] m e3
  show ?thesis by blast
qed

text \<open>
  Claim C6. The claim is that the first packet after an idle gap longer than the
  threshold is scheduled at the counter value observed when the loop resumes. The code
  makes the test \<open>cur - next_send > tsc_hz / 100\<close> and the reset at every poll, also at
  the polls that obtain no batch, so \<open>next_send\<close> is reset during the gap and not when
  the batch arrives. On the run below (interval 1010 cycles from \<open>target = 505\<close> and
  a counter of 2 GHz, threshold 20000000 cycles) the last packet of the first batch is
  transmitted at cycle 64000; the empty poll at cycle 30000000 sets \<open>next_send\<close> to 30000000;
  the poll at cycle 45000000 obtains the next batch, about 22 ms after the last transmit,
  and does not reset, since \<open>45000000 - 30000000\<close> is below the threshold. The first packet of
  that batch is scheduled at 30000000, not at 45000000, and the second is transmitted one
  cycle after the first, although the interval is 1010 cycles.
\<close>

theorem idle_gap_stale_schedule:
  "id_cycles_of 505 2000000000 = Some 1010 \<and>
   (2000000000 :: 64 word) div 100 = 20000000 \<and>
   tx_cycle (last (cbr_calls (main_loop_cbr env_gap 2000000000 1010 [] 194))) = 64000 \<and>
   cbr_pc (main_loop_cbr env_gap 2000000000 1010 [] 194) = CPoll \<and>
   fst (ring_dequeue env_gap (cbr_n_deq (main_loop_cbr env_gap 2000000000 1010 [] 194))) \<noteq> 0 \<and>
   rte_get_tsc_cycles env_gap (cbr_n_tsc (main_loop_cbr env_gap 2000000000 1010 [] 194)) = 30000000 \<and>
   next_send (main_loop_cbr env_gap 2000000000 1010 [] 194) = 64640 \<and>
   next_send (main_loop_cbr env_gap 2000000000 1010 [] 195) = 30000000 \<and>
   cbr_pc (main_loop_cbr env_gap 2000000000 1010 [] 195) = CPoll \<and>
   fst (ring_dequeue env_gap (cbr_n_deq (main_loop_cbr env_gap 2000000000 1010 [] 195))) = 0 \<and>
   rte_get_tsc_cycles env_gap (cbr_n_tsc (main_loop_cbr env_gap 2000000000 1010 [] 195)) = 45000000 \<and>
   next_send (main_loop_cbr env_gap 2000000000 1010 [] 196) = 30000000 \<and>
   cbr_calls (main_loop_cbr env_gap 2000000000 1010 [] 199) =
     cbr_calls (main_loop_cbr env_gap 2000000000 1010 [] 194) @
     [last (cbr_calls (main_loop_cbr env_gap 2000000000 1010 [] 199))] \<and>
   tx_off (last (cbr_calls (main_loop_cbr env_gap 2000000000 1010 [] 199))) = 0 \<and>
   tx_sched (last (cbr_calls (main_loop_cbr env_gap 2000000000 1010 [] 199))) = 30000000 \<and>
   tx_cycle (last (cbr_calls (main_loop_cbr env_gap 2000000000 1010 [] 199))) = 45000001 \<and>
   tx_off (last (cbr_calls (main_loop_cbr env_gap 2000000000 1010 [] 202))) = 1 \<and>
   tx_sched (last (cbr_calls (main_loop_cbr env_gap 2000000000 1010 [] 202))) = 30001010 \<and>
   tx_cycle (last (cbr_calls (main_loop_cbr env_gap 2000000000 1010 [] 202))) = 45000002"
proof -
  have v: "id_cycles_of 505 2000000000 = Some 1010"
    by (simp add: id_cycles_of_def to_double_def round64_def exponent_def floor_log2.simps
        pow2_def round_even_def Let_def to_uint64_def)
  have e: "fst (ring_dequeue env_gap 1) \<noteq> 0" "rte_get_tsc_cycles env_gap 65 = 30000000"
    "fst (ring_dequeue env_gap 2) = 0" "rte_get_tsc_cycles env_gap 66 = 45000000"
    by (simp_all add: env_gap_def)
  note g = gap_run [OF refl gap_run_steps(1) gap_run_steps(2) gap_run_steps(3) gap_run_steps(4)]
  from v e g show ?thesis by simp
qed

text \<open>
  Claim C7. In the inner loop of \<open>main_loop_cbr\<close> every transmit call offers exactly one
  packet (\<open>nb_pkts = 1\<close>), and \<open>next_send\<close> advances by exactly \<open>id_cycles\<close> (in
  \<open>uint64_t\<close>) at each transmit call and nowhere else inside the inner loop: two calls
  of one batch that follow each other are scheduled \<open>id_cycles\<close> apart, whatever the
  first of them returned.
\<close>

theorem one_packet_per_interval:
  assumes "s = main_loop_cbr e hz idc b n" and "s' = main_loop_cbr e hz idc b (Suc n)"
  shows "(\<forall>c \<in> set (cbr_calls s). tx_nb c = 1 \<and> length (tx_pkts c) \<le> 1) \<and>
         (\<forall>i. Suc i < length (cbr_calls s) \<and>
              tx_batch (cbr_calls s ! Suc i) = tx_batch (cbr_calls s ! i) \<longrightarrow>
              tx_sched (cbr_calls s ! Suc i) = tx_sched (cbr_calls s ! i) + idc) \<and>
         (cbr_pc s = CSend \<longrightarrow>
            next_send s' = next_send s + idc \<and> cbr_n_tx s' = Suc (cbr_n_tx s) \<and>
            cbr_calls s' = cbr_calls s @ [last (cbr_calls s')] \<and>
            tx_nb (last (cbr_calls s')) = 1 \<and>
            tx_pkts (last (cbr_calls s')) = take 1 (drop (unat (cbr_sent s)) (cbr_bufs s))) \<and>
         (cbr_pc s \<noteq> CSend \<longrightarrow> cbr_n_tx s' = cbr_n_tx s \<and> cbr_calls s' = cbr_calls s) \<and>
         (cbr_pc s = CInner \<or> cbr_pc s = CSpin \<longrightarrow> next_send s' = next_send s)"
proof -
  have t: "cbr_timing_inv hz idc s"
    unfolding assms(1) by (rule cbr_timing_inv_run)
  have q: "cbr_seq_inv idc s"
    unfolding assms(1) by (rule cbr_seq_inv_run)
  have s': "s' = main_loop_cbr_step e s"
    by (simp add: assms main_loop_cbr_Suc)
  from t have 1: "\<forall>c \<in> set (cbr_calls s). tx_nb c = 1 \<and> length (tx_pkts c) \<le> 1"
    by (simp add: cbr_timing_inv_def)
  from q have 2: "\<forall>i. Suc i < length (cbr_calls s) \<and>
              tx_batch (cbr_calls s ! Suc i) = tx_batch (cbr_calls s ! i) \<longrightarrow>
              tx_sched (cbr_calls s ! Suc i) = tx_sched (cbr_calls s ! i) + idc"
    by (simp add: cbr_seq_inv_def follows_def)
  from t have idc: "id_cycles s = idc"
    by (simp add: cbr_timing_inv_def)
  have 3: "cbr_pc s = CSend \<longrightarrow>
            next_send s' = next_send s + idc \<and> cbr_n_tx s' = Suc (cbr_n_tx s) \<and>
            cbr_calls s' = cbr_calls s @ [last (cbr_calls s')] \<and>
            tx_nb (last (cbr_calls s')) = 1 \<and>
            tx_pkts (last (cbr_calls s')) = take 1 (drop (unat (cbr_sent s)) (cbr_bufs s))"
    using idc by (simp add: s' cbr_step_send)
  have 4: "cbr_pc s \<noteq> CSend \<longrightarrow> cbr_n_tx s' = cbr_n_tx s \<and> cbr_calls s' = cbr_calls s"
    by (cases "cbr_pc s") (simp_all add: s' cbr_step_poll cbr_step_guard cbr_step_spin Let_def)
  have 5: "cbr_pc s = CInner \<or> cbr_pc s = CSpin \<longrightarrow> next_send s' = next_send s"
    by (cases "cbr_pc s") (simp_all add: s' cbr_step_guard cbr_step_spin)
  from 1 2 3 4 5 show ?thesis by blast
qed

theorem one_packet_per_interval_witness:
  "cbr_pc (main_loop_cbr env_paced 2000 30 [] 6) = CSend \<and>
   next_send (main_loop_cbr env_paced 2000 30 [] (Suc 6)) =
     next_send (main_loop_cbr env_paced 2000 30 [] 6) + 30 \<and>
   cbr_pc (main_loop_cbr env_paced 2000 30 [] 10) = CInner \<and>
   next_send (main_loop_cbr env_paced 2000 30 [] (Suc 10)) =
     next_send (main_loop_cbr env_paced 2000 30 [] 10) \<and>
   map tx_ret (cbr_calls (main_loop_cbr env_paced 2000 30 [] 10)) = [0, 1, 1] \<and>
   map tx_batch (cbr_calls (main_loop_cbr env_paced 2000 30 [] 10)) = [0, 0, 0] \<and>
   tx_sched (cbr_calls (main_loop_cbr env_paced 2000 30 [] 10) ! Suc 0) =
     tx_sched (cbr_calls (main_loop_cbr env_paced 2000 30 [] 10) ! 0) + 30 \<and>
   tx_sched (cbr_calls (main_loop_cbr env_paced 2000 30 [] 10) ! Suc 1) =
     tx_sched (cbr_calls (main_loop_cbr env_paced 2000 30 [] 10) ! 1) + 30 \<and>
   tx_nb (hd (cbr_calls (main_loop_cbr env_paced 2000 30 [] 10))) = 1"
proof -
  have e6: "cbr_pc (main_loop_cbr env_paced 2000 30 [] 6) = CSend"
    apply (simp add: main_loop_cbr_def eval_nat_numeral)
    apply (simp add: cbr_run_simps env_paced_def)
    done
  have e10: "cbr_pc (main_loop_cbr env_paced 2000 30 [] 10) = CInner \<and>
      map tx_ret (cbr_calls (main_loop_cbr env_paced 2000 30 [] 10)) = [0, 1, 1] \<and>
      map tx_batch (cbr_calls (main_loop_cbr env_paced 2000 30 [] 10)) = [0, 0, 0]"
    apply (simp add: main_loop_cbr_def eval_nat_numeral)
    apply (simp add: cbr_run_simps env_paced_def)
    done
  then have len: "length (cbr_calls (main_loop_cbr env_paced 2000 30 [] 10)) = 3"
    by (metis length_map length_Cons list.size(3) numeral_3_eq_3)
  then have ne: "cbr_calls (main_loop_cbr env_paced 2000 30 [] 10) \<noteq> []" by auto
  then have m: "hd (cbr_calls (main_loop_cbr env_paced 2000 30 [] 10))
      \<in> set (cbr_calls (main_loop_cbr env_paced 2000 30 [] 10))"
    by simp
  from e10 len have b: "tx_batch (cbr_calls (main_loop_cbr env_paced 2000 30 [] 10) ! Suc 0) =
      tx_batch (cbr_calls (main_loop_cbr env_paced 2000 30 [] 10) ! 0)"
    "tx_batch (cbr_calls (main_loop_cbr env_paced 2000 30 [] 10) ! Suc 1) =
      tx_batch (cbr_calls (main_loop_cbr env_paced 2000 30 [] 10) ! 1)"
    by (metis nth_map nth_Cons_0 nth_Cons_Suc One_nat_def lessI numeral_3_eq_3 Suc_lessD
        Suc_1 zero_less_Suc)+
  note a = one_packet_per_interval [OF refl refl, of env_paced 2000 30 "[]" 6]
  note c = one_packet_per_interval [OF refl refl, of env_paced 2000 30 "[]" 10]
  from a e6 have "next_send (main_loop_cbr env_paced 2000 30 [] (Suc 6)) =
     next_send (main_loop_cbr env_paced 2000 30 [] 6) + 30" by blast
  moreover from c e10 have "next_send (main_loop_cbr env_paced 2000 30 [] (Suc 10)) =
     next_send (main_loop_cbr env_paced 2000 30 [] 10)" by blast
  moreover from c len b have "tx_sched (cbr_calls (main_loop_cbr env_paced 2000 30 [] 10) ! Suc 0) =
     tx_sched (cbr_calls (main_loop_cbr env_paced 2000 30 [] 10) ! 0) + 30"
    "tx_sched (cbr_calls (main_loop_cbr env_paced 2000 30 [] 10) ! Suc 1) =
     tx_sched (cbr_calls (main_loop_cbr env_paced 2000 30 [] 10) ! 1) + 30"
    by simp_all
  moreover from c m have "tx_nb (hd (cbr_calls (main_loop_cbr env_paced 2000 30 [] 10))) = 1"
    by blast
  ultimately show ?thesis using e6 e10 by blast
qed

text \<open>
  Claim C8. The test for the idle gap subtracts in \<open>uint64_t\<close>. At the top of an
  iteration of \<open>main_loop_cbr\<close> where \<open>next_send\<close> is ahead of the counter value \<open>now\<close>
  by fewer than \<open>2\<^sup>6\<^sup>4 - tsc_hz / 100\<close> cycles, the difference \<open>now - next_send\<close> wraps
  to \<open>2\<^sup>6\<^sup>4 - (next_send - now)\<close>, which exceeds the threshold, and \<open>next_send\<close> is
  reset to \<open>now\<close>: the reset also fires when the loop is ahead of its schedule.
\<close>

theorem ahead_of_schedule_resets:
  assumes "s = main_loop_cbr e hz idc b n"
    and "cbr_pc s = CPoll"
    and "now = rte_get_tsc_cycles e (cbr_n_tsc s)"
    and "now < next_send s"
    and "unat (next_send s) - unat now < 2 ^ 64 - unat (hz div 100)"
  shows "unat (now - next_send s) = 2 ^ 64 - (unat (next_send s) - unat now) \<and>
         hz div 100 < now - next_send s \<and>
         next_send (main_loop_cbr e hz idc b (Suc n)) = now"
proof -
  have hz: "tsc_hz s = hz"
    using cbr_timing_inv_run [of hz idc e b n] by (simp add: cbr_timing_inv_def assms(1))
  have w: "unat (now - next_send s) = 2 ^ 64 - (unat (next_send s) - unat now)"
    by (rule word64_sub_wraps [OF assms(4)])
  from assms(4) have "unat now < unat (next_send s)" by (simp add: word_less_nat_alt)
  with assms(5) w have g: "hz div 100 < now - next_send s"
    by (simp add: word_less_nat_alt)
  with assms(2,3) hz have "next_send (main_loop_cbr_step e s) = now"
    by (simp add: cbr_step_poll Let_def)
  with w g show ?thesis by (simp add: main_loop_cbr_Suc assms(1))
qed

text \<open>
  Such a state is reached after the first batch with \<open>env_ahead\<close>, a counter of 2 GHz
  and \<open>target = 505\<close>: 64 packets, 1010 cycles apart, put \<open>next_send\<close> at 64640,
  the last of them is transmitted at cycle 64000, and the next poll reads 64001.
\<close>

theorem ahead_of_schedule_resets_witness:
  "id_cycles_of 505 2000000000 = Some 1010 \<and>
   cbr_pc (main_loop_cbr env_ahead 2000000000 1010 [] 194) = CPoll \<and>
   rte_get_tsc_cycles env_ahead (cbr_n_tsc (main_loop_cbr env_ahead 2000000000 1010 [] 194))
     = 64001 \<and>
   next_send (main_loop_cbr env_ahead 2000000000 1010 [] 194) = 64640 \<and>
   tx_cycle (last (cbr_calls (main_loop_cbr env_ahead 2000000000 1010 [] 194))) = 64000 \<and>
   next_send (main_loop_cbr env_ahead 2000000000 1010 [] (Suc 194)) = 64001"
proof -
  have v: "id_cycles_of 505 2000000000 = Some 1010"
    by (simp add: id_cycles_of_def to_double_def round64_def exponent_def floor_log2.simps
        pow2_def round_even_def Let_def to_uint64_def)
  from first_batch_done [OF first_batch_env_ahead refl, of 2000000000 "[]"]
  have s: "cbr_pc (main_loop_cbr env_ahead 2000000000 1010 [] 194) = CPoll"
    "cbr_n_tsc (main_loop_cbr env_ahead 2000000000 1010 [] 194) = 65"
    "next_send (main_loop_cbr env_ahead 2000000000 1010 [] 194) = 64640"
    "tx_cycle (last (cbr_calls (main_loop_cbr env_ahead 2000000000 1010 [] 194))) = 64000"
    by simp_all
  have t: "rte_get_tsc_cycles env_ahead 65 = 64001"
    by (simp add: env_ahead_def)
  have lt: "rte_get_tsc_cycles env_ahead (cbr_n_tsc (main_loop_cbr env_ahead 2000000000 1010 [] 194))
      < next_send (main_loop_cbr env_ahead 2000000000 1010 [] 194)"
    using s t by simp
  have d: "unat (next_send (main_loop_cbr env_ahead 2000000000 1010 [] 194)) -
      unat (rte_get_tsc_cycles env_ahead
        (cbr_n_tsc (main_loop_cbr env_ahead 2000000000 1010 [] 194)))
      < 2 ^ 64 - unat ((2000000000 :: 64 word) div 100)"
    using s t by simp
  from ahead_of_schedule_resets [OF refl s(1) refl lt d] v s t show ?thesis
    by simp
qed

text \<open>
  Claim C9. If every call of \<open>ring_dequeue\<close> returns a nonzero code, neither loop ever
  calls \<open>rte_eth_tx_burst\<close>: after any number \<open>n\<close> of transitions the list of transmit
  calls is empty, and the loop has done nothing but poll the ring \<open>n\<close> times.
\<close>

theorem idle_ring_no_transmit:
  assumes "\<forall>k. fst (ring_dequeue e k) \<noteq> 0"
  shows "calls (main_loop e b n) = [] \<and> n_tx (main_loop e b n) = 0 \<and>
         pc (main_loop e b n) = Poll \<and> n_deq (main_loop e b n) = n \<and>
         cbr_calls (main_loop_cbr e hz idc b n) = [] \<and>
         cbr_n_tx (main_loop_cbr e hz idc b n) = 0 \<and>
         cbr_pc (main_loop_cbr e hz idc b n) = CPoll \<and>
         cbr_n_deq (main_loop_cbr e hz idc b n) = n"
  using idle_main_loop [OF assms, of b n] idle_main_loop_cbr [OF assms, of hz idc b n]
  by simp

theorem idle_ring_no_transmit_witness:
  "(\<forall>k. fst (ring_dequeue env_idle k) \<noteq> 0) \<and>
   calls (main_loop env_idle [] 5) = [] \<and> n_deq (main_loop env_idle [] 5) = 5 \<and>
   cbr_calls (main_loop_cbr env_idle 2000000000 2000 [] 5) = [] \<and>
   cbr_n_deq (main_loop_cbr env_idle 2000000000 2000 [] 5) = 5"
proof -
  have h: "\<forall>k. fst (ring_dequeue env_idle k) \<noteq> 0"
    by (simp add: env_idle_def)
  show ?thesis
    using h idle_ring_no_transmit [OF h, of "[]" 5 2000000000 2000] by simp
qed

text \<open>
  Claim C10. If the device never accepts more than it is offered, then in both loops
  \<open>sent\<close> never exceeds \<open>batch_size\<close>; every transmit call starts inside the array and
  ends inside it (\<open>tx_off + tx_nb \<le> batch_size\<close>); in \<open>main_loop\<close> the count
  \<open>batch_size - sent\<close> did not wrap; and the test of the inner loop fails, so that
  the loop is left, exactly when \<open>sent = batch_size\<close>.
\<close>

theorem sent_stays_within_batch:
  assumes "sink_ok e"
  shows "unat (sent (main_loop e b n)) \<le> batch_size \<and>
         (\<forall>c \<in> set (calls (main_loop e b n)).
            unat (tx_off c) < batch_size \<and>
            unat (tx_off c) + unat (tx_nb c) \<le> batch_size \<and>
            unat (tx_nb c) = batch_size - unat (tx_off c)) \<and>
         (pc (main_loop e b n) = Inner \<longrightarrow>
            (pc (main_loop e b (Suc n)) = Poll \<longleftrightarrow>
             unat (sent (main_loop e b n)) = batch_size)) \<and>
         unat (cbr_sent (main_loop_cbr e hz idc b m)) \<le> batch_size \<and>
         (\<forall>c \<in> set (cbr_calls (main_loop_cbr e hz idc b m)).
            unat (tx_off c) < batch_size \<and> tx_nb c = 1 \<and>
            unat (tx_off c) + unat (tx_nb c) \<le> batch_size) \<and>
         (cbr_pc (main_loop_cbr e hz idc b m) = CInner \<longrightarrow>
            (cbr_pc (main_loop_cbr e hz idc b (Suc m)) = CPoll \<longleftrightarrow>
             unat (cbr_sent (main_loop_cbr e hz idc b m)) = batch_size))"
proof -
  have d: "main_loop_bounds (main_loop e b n)"
    by (rule main_loop_bounds_run [OF assms])
  have c: "cbr_bounds (main_loop_cbr e hz idc b m)"
    by (rule cbr_bounds_run [OF assms])
  have t: "cbr_timing_inv hz idc (main_loop_cbr e hz idc b m)"
    by (rule cbr_timing_inv_run)
  from d have 1: "unat (sent (main_loop e b n)) \<le> batch_size"
    and 2: "\<forall>c \<in> set (calls (main_loop e b n)).
            unat (tx_off c) < batch_size \<and>
            unat (tx_off c) + unat (tx_nb c) \<le> batch_size \<and>
            unat (tx_nb c) = batch_size - unat (tx_off c)"
    by (auto simp: main_loop_bounds_def in_bounds_def)
  from c t have 3: "unat (cbr_sent (main_loop_cbr e hz idc b m)) \<le> batch_size"
    and 4: "\<forall>c \<in> set (cbr_calls (main_loop_cbr e hz idc b m)).
            unat (tx_off c) < batch_size \<and> tx_nb c = 1 \<and>
            unat (tx_off c) + unat (tx_nb c) \<le> batch_size"
    by (auto simp: cbr_bounds_def in_bounds_def cbr_timing_inv_def)
  show ?thesis
    unfolding main_loop_Suc main_loop_cbr_Suc
    using 1 2 3 4 main_loop_exit_iff [OF d, of e] cbr_exit_iff [OF c, of e]
    by blast
qed

theorem sent_stays_within_batch_witness:
  "sink_ok env_burst \<and>
   pc (main_loop env_burst [] 6) = Inner \<and>
   unat (sent (main_loop env_burst [] 6)) = batch_size \<and>
   pc (main_loop env_burst [] (Suc 6)) = Poll \<and>
   hd (calls (main_loop env_burst [] 6)) \<in> set (calls (main_loop env_burst [] 6)) \<and>
   unat (tx_off (hd (calls (main_loop env_burst [] 6)))) +
     unat (tx_nb (hd (calls (main_loop env_burst [] 6)))) \<le> batch_size \<and>
   cbr_pc (main_loop_cbr env_burst 2000000000 2000 [] 5) = CInner \<and>
   unat (cbr_sent (main_loop_cbr env_burst 2000000000 2000 [] 5)) \<noteq> batch_size \<and>
   cbr_pc (main_loop_cbr env_burst 2000000000 2000 [] (Suc 5)) \<noteq> CPoll \<and>
   hd (cbr_calls (main_loop_cbr env_burst 2000000000 2000 [] 5))
     \<in> set (cbr_calls (main_loop_cbr env_burst 2000000000 2000 [] 5)) \<and>
   tx_nb (hd (cbr_calls (main_loop_cbr env_burst 2000000000 2000 [] 5))) = 1"
proof -
  have h: "sink_ok env_burst"
    by (simp add: sink_ok_def env_burst_def)
  have d: "pc (main_loop env_burst [] 6) = Inner \<and>
      unat (sent (main_loop env_burst [] 6)) = batch_size \<and>
      calls (main_loop env_burst [] 6) \<noteq> []"
    apply (simp add: main_loop_def eval_nat_numeral)
    apply (simp add: main_loop_init_def main_loop_step_def env_burst_def batch_size_def Let_def)
    done
  have c: "cbr_pc (main_loop_cbr env_burst 2000000000 2000 [] 5) = CInner \<and>
      unat (cbr_sent (main_loop_cbr env_burst 2000000000 2000 [] 5)) \<noteq> batch_size \<and>
      cbr_calls (main_loop_cbr env_burst 2000000000 2000 [] 5) \<noteq> []"
    apply (simp add: main_loop_cbr_def eval_nat_numeral)
    apply (simp add: main_loop_cbr_init_def main_loop_cbr_step_def env_burst_def batch_size_def
        Let_def)
    done
  from d have dm: "hd (calls (main_loop env_burst [] 6)) \<in> set (calls (main_loop env_burst [] 6))"
    by simp
  from c have cm: "hd (cbr_calls (main_loop_cbr env_burst 2000000000 2000 [] 5))
      \<in> set (cbr_calls (main_loop_cbr env_burst 2000000000 2000 [] 5))"
    by simp
  show ?thesis
    using h d c dm cm sent_stays_within_batch [OF h, of "[]" 6 2000000000 2000 5]
    by blast
qed


end
